theory Spec2Isabelle
  imports Main "HOL-Library.Word"
begin

unbundle bit_operations_syntax

section \<open>WebSocket frame parser and encoder (src/lib/frame.ts)\<close>

subsection \<open>Data model\<close>

text \<open>
  A Node.js \<open>Buffer\<close> is a sequence of bytes. JavaScript numbers that hold lengths and
  offsets are natural numbers here (all of them are sums of unsigned reads, far below
  \<open>2 ^ 53\<close>); the one difference the source computes, \<open>remainingByteLen\<close>, is an
  \<open>int\<close>. Buffers are values: the sharing of memory between a chunk and its slices
  and the allocation limit of \<open>Buffer.alloc\<close> are outside the model. The interfaces
  \<open>IFrame\<close>, \<open>IFragmentedFrame\<close> and \<open>ICreateFrameOptions\<close> have the fields the source
  reads and writes; the field \<open>mask\<close> is called \<open>mask_flag\<close>, since \<open>mask\<close> is a
  constant of the bit-operations library.
\<close>

type_synonym byte = "8 word"
type_synonym buffer = "byte list"

text \<open>
  The three ways a call can throw: \<open>WebSocketError(ClosureStatus.PROTOCOL_ERROR)\<close>,
  \<open>Error('Payload with 8 byte length is not supported')\<close>, and the \<open>RangeError\<close> that
  Node's Buffer accessors raise on an out-of-range offset or value.
\<close>

datatype error = ProtocolError | UnsupportedLengthError | RangeError

record ICreateFrameOptions =
  opcode :: nat
  fin :: bool

record IFrame =
  fin :: bool
  rsv1 :: nat
  rsv2 :: nat
  rsv3 :: nat
  opcode :: nat
  mask_flag :: bool
  payloadLen :: nat
  payload :: buffer
  frameLen :: nat

record IFragmentedFrame =
  fin :: bool
  rsv1 :: nat
  rsv2 :: nat
  rsv3 :: nat
  mask_flag :: bool
  opcode :: nat
  payloadLen :: nat
  rawPayload :: buffer
  maskingKey :: buffer
  byteOffset :: nat

record WebsocketParser =
  parsedFrames :: "IFrame list"
  fragmentedFrame :: "IFragmentedFrame option"

text \<open>\<open>new WebsocketParser()\<close>: an empty queue and no pending partial frame.\<close>

definition newParser :: WebsocketParser where
  "newParser = \<lparr>parsedFrames = [], fragmentedFrame = None\<rparr>"

subsection \<open>Node.js Buffer primitives used by the source\<close>

text \<open>
  \<open>buf.slice(start, end)\<close>: negative indices count from the end, both are clamped to
  the length, and an empty buffer results when \<open>end \<le> start\<close>.
\<close>

definition adjustOffset :: "int \<Rightarrow> nat \<Rightarrow> nat" where
  "adjustOffset off len =
     (if off < 0 then nat (max (off + int len) 0) else min (nat off) len)"

definition buf_slice :: "buffer \<Rightarrow> int \<Rightarrow> int \<Rightarrow> buffer" where
  "buf_slice buf start end =
     (let s = adjustOffset start (length buf); e = adjustOffset end (length buf)
      in if s < e then take (e - s) (drop s buf) else [])"

text \<open>\<open>buf.slice(start)\<close>: the end defaults to the length.\<close>

definition buf_slice_from :: "buffer \<Rightarrow> int \<Rightarrow> buffer" where
  "buf_slice_from buf start = buf_slice buf start (int (length buf))"

text \<open>\<open>Buffer.alloc(n)\<close> is zero-filled.\<close>

definition buf_alloc :: "nat \<Rightarrow> buffer" where
  "buf_alloc n = replicate n 0"

text \<open>
  \<open>Buffer.concat(list, totalLength)\<close>: the concatenation, truncated or zero-padded to
  \<open>totalLength\<close>.
\<close>

definition buf_concat :: "buffer list \<Rightarrow> nat \<Rightarrow> buffer" where
  "buf_concat bufs totalLength =
     (let all = concat bufs in take totalLength all @ replicate (totalLength - length all) 0)"

text \<open>
  \<open>buf[i]\<close> used as an operand of \<open>^\<close>: an index out of range reads \<open>undefined\<close>,
  which the bitwise operator coerces to 0.
\<close>

definition buf_index :: "buffer \<Rightarrow> nat \<Rightarrow> byte" where
  "buf_index buf i = (if i < length buf then buf ! i else 0)"

text \<open>The read accessors raise a \<open>RangeError\<close> when a byte they need is missing.\<close>

definition readUInt8 :: "buffer \<Rightarrow> nat \<Rightarrow> error + nat" where
  "readUInt8 buf off = (if off < length buf then Inr (unat (buf ! off)) else Inl RangeError)"

definition readUInt16BE :: "buffer \<Rightarrow> nat \<Rightarrow> error + nat" where
  "readUInt16BE buf off =
     (if off + 1 < length buf
      then Inr (unat (buf ! off) * 2 ^ 8 + unat (buf ! (off + 1)))
      else Inl RangeError)"

definition readUInt32BE :: "buffer \<Rightarrow> nat \<Rightarrow> error + nat" where
  "readUInt32BE buf off =
     (if off + 3 < length buf
      then Inr (unat (buf ! off) * 2 ^ 24 + unat (buf ! (off + 1)) * 2 ^ 16
                + unat (buf ! (off + 2)) * 2 ^ 8 + unat (buf ! (off + 3)))
      else Inl RangeError)"

text \<open>
  The write accessors check the value against the field width first, then the offset;
  both failures are a \<open>RangeError\<close>.
\<close>

definition writeUInt8 :: "buffer \<Rightarrow> nat \<Rightarrow> nat \<Rightarrow> error + buffer" where
  "writeUInt8 buf v off =
     (if v > 255 then Inl RangeError
      else if off < length buf then Inr (buf[off := of_nat v])
      else Inl RangeError)"

definition writeUInt16BE :: "buffer \<Rightarrow> nat \<Rightarrow> nat \<Rightarrow> error + buffer" where
  "writeUInt16BE buf v off =
     (if v > 65535 then Inl RangeError
      else if off + 1 < length buf
      then Inr (buf[off := of_nat (v div 256), off + 1 := of_nat (v mod 256)])
      else Inl RangeError)"

subsection \<open>The masking transform\<close>

text \<open>
  The loop of \<open>unmask\<close>: \<open>out\<close> is the output buffer \<open>payload\<close> filled so far and
  \<open>i\<close> the loop counter (\<open>raw\<close> and \<open>key\<close> stand for \<open>rawPayload\<close> and
  \<open>maskingKey\<close>). \<open>payload.writeUInt8(decoded, i)\<close> cannot fail, because \<open>decoded\<close> is
  a byte and \<open>i\<close> is below the allocated length.
\<close>

function unmask_loop :: "buffer \<Rightarrow> nat \<Rightarrow> buffer \<Rightarrow> buffer \<Rightarrow> nat \<Rightarrow> buffer" where
  "unmask_loop raw pLen key out i =
     (if i < pLen
      then let j = i mod 4;
               decoded = buf_index raw i XOR buf_index key j
           in unmask_loop raw pLen key (out[i := decoded]) (i + 1)
      else out)"
  by pat_completeness auto
termination
  by (relation "measure (\<lambda>(raw, pLen, key, out, i). pLen - i)") auto

definition unmask :: "buffer \<Rightarrow> nat \<Rightarrow> buffer \<Rightarrow> buffer" where
  "unmask raw pLen key =
     unmask_loop raw pLen key (buf_alloc pLen) 0"

subsection \<open>The encoder\<close>

definition generateFirstByte :: "ICreateFrameOptions \<Rightarrow> nat" where
  "generateFirstByte options =
     (if ICreateFrameOptions.opcode options = 1 \<and> ICreateFrameOptions.fin options then 129
      else if ICreateFrameOptions.opcode options = 1 \<and> \<not> ICreateFrameOptions.fin options then 1
      else if ICreateFrameOptions.opcode options = 2 \<and> ICreateFrameOptions.fin options then 130
      else 2)"

text \<open>
  The copy loop of \<open>createFrame\<close>: writes \<open>payload[i]\<close> at \<open>byteOffset\<close> and advances
  both (\<open>data\<close> stands for the argument \<open>payload\<close>, \<open>off\<close> for the local \<open>byteOffset\<close>).
\<close>

function copy_loop :: "buffer \<Rightarrow> nat \<Rightarrow> nat \<Rightarrow> buffer \<Rightarrow> error + buffer" where
  "copy_loop data i off rawFrame =
     (if i < length data
      then (case writeUInt8 rawFrame (unat (data ! i)) off of
              Inl e \<Rightarrow> Inl e
            | Inr rawFrame' \<Rightarrow> copy_loop data (i + 1) (off + 1) rawFrame')
      else Inr rawFrame)"
  by pat_completeness auto
termination
  by (relation "measure (\<lambda>(data, i, off, rawFrame). length data - i)") auto

text \<open>
  \<open>createFrame\<close>, statement by statement. After \<open>writeUInt16BE\<close> the source advances
  \<open>byteOffset\<close> by one (\<open>byteOffset++\<close>), and the model does the same.
\<close>

definition createFrame :: "buffer \<Rightarrow> ICreateFrameOptions \<Rightarrow> error + buffer" where
  "createFrame data options =
     (let dataLen = length data;
          firstByte = generateFirstByte options;
          pLen = (if dataLen = 126 then 126 else dataLen);
          frameSize = 2 + (if dataLen = 126 then 2 else 0) + dataLen;
          rawFrame = buf_alloc frameSize
      in case writeUInt8 rawFrame firstByte 0 of
           Inl e \<Rightarrow> Inl e
         | Inr rawFrame1 \<Rightarrow>
            (case writeUInt8 rawFrame1 pLen 1 of
               Inl e \<Rightarrow> Inl e
             | Inr rawFrame2 \<Rightarrow>
                (if dataLen = 126
                 then (case writeUInt16BE rawFrame2 dataLen 2 of
                         Inl e \<Rightarrow> Inl e
                       | Inr rawFrame3 \<Rightarrow> copy_loop data 0 3 rawFrame3)
                 else copy_loop data 0 2 rawFrame2)))"

subsection \<open>The decoder\<close>

text \<open>
  \<open>readFragmentedBuffer\<close>: completes or extends the pending partial frame and returns
  the part of the chunk it did not consume.
\<close>

definition readFragmentedBuffer :: "WebsocketParser \<Rightarrow> buffer \<Rightarrow> WebsocketParser \<times> buffer" where
  "readFragmentedBuffer this chunk =
     (case fragmentedFrame this of
        None \<Rightarrow> (this, chunk)
      | Some ff \<Rightarrow>
         (let remainingByteLen =
                int (IFragmentedFrame.payloadLen ff) - int (length (rawPayload ff))
          in if remainingByteLen > int (length chunk)
             then (this\<lparr>fragmentedFrame :=
                          Some (ff\<lparr>rawPayload :=
                                     buf_concat [rawPayload ff, chunk]
                                       (length (rawPayload ff) + length chunk)\<rparr>)\<rparr>,
                   buf_alloc 0)
             else
               (let remainingPart = buf_slice chunk 0 remainingByteLen;
                    raw' = buf_concat [rawPayload ff, remainingPart]
                             (nat (int (length (rawPayload ff)) + remainingByteLen));
                    payload' = (if IFragmentedFrame.mask_flag ff
                                then unmask raw' (IFragmentedFrame.payloadLen ff) (maskingKey ff)
                                else raw');
                    frame = \<lparr>IFrame.fin = IFragmentedFrame.fin ff,
                             rsv1 = IFragmentedFrame.rsv1 ff,
                             rsv2 = IFragmentedFrame.rsv2 ff,
                             rsv3 = IFragmentedFrame.rsv3 ff,
                             opcode = IFragmentedFrame.opcode ff,
                             mask_flag = IFragmentedFrame.mask_flag ff,
                             payloadLen = IFragmentedFrame.payloadLen ff,
                             payload = payload',
                             frameLen = byteOffset ff + length payload'\<rparr>
                in (\<lparr>parsedFrames = parsedFrames this @ [frame], fragmentedFrame = None\<rparr>,
                    buf_slice_from chunk remainingByteLen))))"

text \<open>
  The extended payload length of \<open>readFrame\<close> (the two \<open>if\<close> statements on
  \<open>payloadLen\<close> after the second byte): from the 7-bit candidate to the values of
  \<open>payloadLen\<close> and \<open>byteOffset\<close> in front of the masking key. The two tests are
  consecutive \<open>if\<close> statements, not alternatives, so the second one also sees a length
  that the first one has read.
\<close>

definition readExtendedLength :: "buffer \<Rightarrow> nat \<Rightarrow> error + nat \<times> nat" where
  "readExtendedLength chunk len7 =
     (case (if len7 = 126
            then (case readUInt16BE chunk 2 of
                    Inl e \<Rightarrow> Inl e
                  | Inr v \<Rightarrow> Inr (v, 2 + 2))
            else Inr (len7, 2)) of
        Inl e \<Rightarrow> Inl e
      | Inr (len16, off16) \<Rightarrow>
         (if len16 = 127
          then (case readUInt32BE chunk off16 of
                  Inl e \<Rightarrow> Inl e
                | Inr first32bits \<Rightarrow>
                   (case readUInt32BE chunk (off16 + 4) of
                      Inl e \<Rightarrow> Inl e
                    | Inr second32bits \<Rightarrow>
                       if first32bits \<noteq> 0 then Inl UnsupportedLengthError
                       else Inr (second32bits, off16 + 8)))
          else Inr (len16, off16)))"

text \<open>
  The header part of \<open>readFrame\<close> (from \<open>let byteOffset = 0\<close> to the computation of
  \<open>rawPayload\<close>): the values of the local variables, which are exactly the fields the
  source stores in \<open>fragmentedFrame\<close>. The reserved bits are tested before the second
  byte is read.
\<close>

definition readHeader :: "buffer \<Rightarrow> error + IFragmentedFrame" where
  "readHeader chunk =
     (case readUInt8 chunk 0 of
        Inl e \<Rightarrow> Inl e
      | Inr firstByte \<Rightarrow>
         (let fin' = (drop_bit 7 firstByte AND 1 \<noteq> 0);
              rsv1' = drop_bit 6 firstByte AND 1;
              rsv2' = drop_bit 5 firstByte AND 1;
              rsv3' = drop_bit 4 firstByte AND 1
          in if rsv1' \<noteq> 0 \<or> rsv2' \<noteq> 0 \<or> rsv3' \<noteq> 0 then Inl ProtocolError
             else
               (let opcode' = firstByte AND 15
                in case readUInt8 chunk 1 of
                     Inl e \<Rightarrow> Inl e
                   | Inr secondByte \<Rightarrow>
                      (let mask' = (drop_bit 7 secondByte AND 1 \<noteq> 0)
                       in case readExtendedLength chunk (secondByte AND 127) of
                            Inl e \<Rightarrow> Inl e
                          | Inr (pLen, off) \<Rightarrow>
                             (let key = (if mask'
                                         then buf_slice chunk (int off) (int off + 4)
                                         else buf_alloc 4);
                                  off' = (if mask' then off + 4 else off)
                              in Inr \<lparr>IFragmentedFrame.fin = fin',
                                      rsv1 = rsv1', rsv2 = rsv2', rsv3 = rsv3',
                                      mask_flag = mask', opcode = opcode',
                                      payloadLen = pLen,
                                      rawPayload = buf_slice chunk (int off') (int off' + int pLen),
                                      maskingKey = key,
                                      byteOffset = off'\<rparr>)))))"

text \<open>
  \<open>readFrame\<close>. A throw leaves the parser as \<open>readFragmentedBuffer\<close> left it, so the
  result pairs the parser after the call with either the error or the returned buffer.
\<close>

definition readFrame :: "WebsocketParser \<Rightarrow> buffer \<Rightarrow> WebsocketParser \<times> (error + buffer)" where
  "readFrame this chunk0 =
     (let (this1, chunk) = readFragmentedBuffer this chunk0
      in if length chunk \<le> 0 then (this1, Inr chunk)
         else
           (case readHeader chunk of
              Inl e \<Rightarrow> (this1, Inl e)
            | Inr h \<Rightarrow>
               (let remainingBuff =
                      buf_slice_from chunk (int (byteOffset h) + int (IFragmentedFrame.payloadLen h))
                in if length (rawPayload h) < IFragmentedFrame.payloadLen h
                   then (this1\<lparr>fragmentedFrame := Some h\<rparr>, Inr (buf_alloc 0))
                   else
                     (let payload' = (if IFragmentedFrame.mask_flag h
                                      then unmask (rawPayload h) (IFragmentedFrame.payloadLen h)
                                             (maskingKey h)
                                      else rawPayload h);
                          frame = \<lparr>IFrame.fin = IFragmentedFrame.fin h,
                                   rsv1 = IFragmentedFrame.rsv1 h,
                                   rsv2 = IFragmentedFrame.rsv2 h,
                                   rsv3 = IFragmentedFrame.rsv3 h,
                                   opcode = IFragmentedFrame.opcode h,
                                   mask_flag = IFragmentedFrame.mask_flag h,
                                   payloadLen = IFragmentedFrame.payloadLen h,
                                   payload = payload',
                                   frameLen = byteOffset h + length payload'\<rparr>
                      in (this1\<lparr>parsedFrames := parsedFrames this1 @ [frame]\<rparr>,
                          Inr remainingBuff)))))"

text \<open>\<open>clearFrames\<close> replaces the queue by an empty one.\<close>

definition clearFrames :: "WebsocketParser \<Rightarrow> WebsocketParser" where
  "clearFrames this = this\<lparr>parsedFrames := []\<rparr>"

text \<open>
  A caller delivering chunks one after the other, one \<open>readFrame\<close> call per chunk. It
  stops at the first call that throws and returns what the last call returned; what
  the earlier calls returned is not fed again.
\<close>

fun feed :: "WebsocketParser \<Rightarrow> buffer list \<Rightarrow> WebsocketParser \<times> (error + buffer)" where
  "feed this [] = (this, Inr [])"
| "feed this (chunk # chunks) =
     (case readFrame this chunk of
        (this', Inl e) \<Rightarrow> (this', Inl e)
      | (this', Inr rest) \<Rightarrow> (if chunks = [] then (this', Inr rest) else feed this' chunks))"

subsection \<open>Auxiliary notions for the statements\<close>

declare unmask_loop.simps [simp del]
declare copy_loop.simps [simp del]

text \<open>
  The formula of the masking transform as the specification words it: output byte \<open>i\<close>
  is \<open>rawPayload[i] XOR maskingKey[i mod 4]\<close>. It is compared with the loop of the source
  in \<open>unmask_closed\<close>.
\<close>

definition unmask_byte :: "buffer \<Rightarrow> buffer \<Rightarrow> nat \<Rightarrow> byte" where
  "unmask_byte raw key i = buf_index raw i XOR buf_index key (i mod 4)"

text \<open>
  The invariant of the private field \<open>fragmentedFrame\<close>: a pending partial frame has
  buffered fewer bytes than its payload length. It holds for a new parser and every call
  preserves it (\<open>parser_inv_newParser\<close>, \<open>parser_inv_readFrame\<close>).
\<close>

definition parser_inv :: "WebsocketParser \<Rightarrow> bool" where
  "parser_inv this =
     (case fragmentedFrame this of
        None \<Rightarrow> True
      | Some ff \<Rightarrow> length (rawPayload ff) < IFragmentedFrame.payloadLen ff)"

text \<open>
  The frame that both emission sites of the source (\<open>readFrame\<close> and
  \<open>readFragmentedBuffer\<close>) build from the header fields once \<open>rawPayload\<close> is complete;
  used to state what the two sites produce without repeating the nine fields.
\<close>

definition frame_of :: "IFragmentedFrame \<Rightarrow> IFrame" where
  "frame_of h =
     \<lparr>IFrame.fin = IFragmentedFrame.fin h,
      rsv1 = IFragmentedFrame.rsv1 h,
      rsv2 = IFragmentedFrame.rsv2 h,
      rsv3 = IFragmentedFrame.rsv3 h,
      opcode = IFragmentedFrame.opcode h,
      mask_flag = IFragmentedFrame.mask_flag h,
      payloadLen = IFragmentedFrame.payloadLen h,
      payload = (if IFragmentedFrame.mask_flag h
                 then unmask (rawPayload h) (IFragmentedFrame.payloadLen h) (maskingKey h)
                 else rawPayload h),
      frameLen = byteOffset h
                 + length (if IFragmentedFrame.mask_flag h
                           then unmask (rawPayload h) (IFragmentedFrame.payloadLen h) (maskingKey h)
                           else rawPayload h)\<rparr>"

text \<open>
  A byte sequence that encodes one complete frame \<open>f\<close>: a new parser decodes it in one
  call into exactly that frame, with nothing pending and nothing left over.
\<close>

definition complete_frame :: "buffer \<Rightarrow> IFrame \<Rightarrow> bool" where
  "complete_frame bs f \<longleftrightarrow>
     readFrame newParser bs = (\<lparr>parsedFrames = [f], fragmentedFrame = None\<rparr>, Inr [])"

section \<open>Properties\<close>

subsection \<open>Buffer primitives\<close>

lemma buf_slice_nat: "buf_slice buf (int s) (int e) = take (e - s) (drop s buf)"
  by (auto simp: buf_slice_def adjustOffset_def Let_def min_def)

lemma buf_slice_from_nat: "buf_slice_from buf (int s) = drop s buf"
  by (simp add: buf_slice_from_def buf_slice_nat)

lemma buf_slice_nat2: "buf_slice buf (int s) (int s + int n) = take n (drop s buf)"
  using buf_slice_nat [of buf s "s + n"] by simp

lemma buf_slice_key: "buf_slice buf (int s) (int s + 4) = take 4 (drop s buf)"
  using buf_slice_nat [of buf s "s + 4"] by simp

lemma buf_slice_from_nat2: "buf_slice_from buf (int a + int b) = drop (a + b) buf"
  using buf_slice_from_nat [of buf "a + b"] by simp

lemma buf_slice_nonneg:
  "0 \<le> a \<Longrightarrow> 0 \<le> b \<Longrightarrow> buf_slice buf a b = take (nat b - nat a) (drop (nat a) buf)"
  using buf_slice_nat [of buf "nat a" "nat b"] by simp

lemma buf_slice_from_nonneg:
  "0 \<le> a \<Longrightarrow> buf_slice_from buf a = drop (nat a) buf"
  using buf_slice_from_nat [of buf "nat a"] by simp

lemma mask_7_nat: "mask 7 = (127::nat)"
  by (simp add: mask_eq_exp_minus_1)

lemma and_127: "(n::nat) AND 127 = n mod 128"
  using take_bit_eq_mask [of 7 n] by (simp add: mask_7_nat take_bit_eq_mod)

lemma mask_4_nat: "mask 4 = (15::nat)"
  by (simp add: mask_eq_exp_minus_1)

lemma and_15: "(n::nat) AND 15 = n mod 16"
  using take_bit_eq_mask [of 4 n] by (simp add: mask_4_nat take_bit_eq_mod)

lemma bit7_small: "n < 128 \<Longrightarrow> \<not> bit (of_nat n :: byte) 7"
  apply (simp add: bit_of_nat_iff)
  apply (simp add: bit_iff_odd_drop_bit drop_bit_eq_div)
  done

lemma even_drop_bit_unat:
  "k < 8 \<Longrightarrow> even (drop_bit k (unat (b :: byte))) \<longleftrightarrow> \<not> bit b k"
proof -
  assume k: "k < 8"
  have "even (drop_bit k (unat b)) \<longleftrightarrow> \<not> bit (unat b) k"
    by (rule even_drop_bit_iff_not_bit)
  also have "bit (unat b) k \<longleftrightarrow> bit b k"
    using k by (simp add: bit_unsigned_iff)
  finally show ?thesis .
qed

lemma drop_bit_unat_mod2:
  "k < 8 \<Longrightarrow> drop_bit k (unat (b :: byte)) mod 2 = (if bit b k then 1 else 0)"
  using even_drop_bit_unat [of k b] by (auto simp: mod_2_eq_odd)

lemmas byte_bits =
  even_drop_bit_unat [of 4, simplified] even_drop_bit_unat [of 5, simplified]
  even_drop_bit_unat [of 6, simplified] even_drop_bit_unat [of 7, simplified]
  drop_bit_unat_mod2 [of 4, simplified] drop_bit_unat_mod2 [of 5, simplified]
  drop_bit_unat_mod2 [of 6, simplified] drop_bit_unat_mod2 [of 7, simplified]

lemma buf_concat_exact:
  "n = length a + length b \<Longrightarrow> buf_concat [a, b] n = a @ b"
  by (simp add: buf_concat_def)

lemma length_buf_concat: "length (buf_concat bufs n) = n"
  by (simp add: buf_concat_def Let_def)

lemma readUInt8_take: "i < k \<Longrightarrow> readUInt8 (take k bs) i = readUInt8 bs i"
  by (auto simp: readUInt8_def)

lemma readUInt16BE_take: "i + 1 < k \<Longrightarrow> readUInt16BE (take k bs) i = readUInt16BE bs i"
  by (auto simp: readUInt16BE_def)

lemma readUInt32BE_take: "i + 3 < k \<Longrightarrow> readUInt32BE (take k bs) i = readUInt32BE bs i"
  by (auto simp: readUInt32BE_def)

lemma writeUInt8_byte:
  "off < length buf \<Longrightarrow> writeUInt8 buf (unat (b :: byte)) off = Inr (buf[off := b])"
proof -
  have "unat b < 2 ^ LENGTH(8)" by (rule unsigned_less)
  then have "unat b < 256" by simp
  then show "off < length buf \<Longrightarrow> ?thesis" by (simp add: writeUInt8_def)
qed

subsection \<open>The masking transform\<close>

lemma unmask_loop_closed:
  "i \<le> pLen \<Longrightarrow> length out = pLen \<Longrightarrow>
   unmask_loop raw pLen key out i = take i out @ map (unmask_byte raw key) [i..<pLen]"
proof (induction raw pLen key out i rule: unmask_loop.induct)
  case (1 raw pLen key out i)
  show ?case
  proof (cases "i < pLen")
    case True
    have "unmask_loop raw pLen key out i =
          unmask_loop raw pLen key (out[i := unmask_byte raw key i]) (i + 1)"
      using True by (subst unmask_loop.simps) (simp add: unmask_byte_def Let_def)
    also have "\<dots> = take (i + 1) (out[i := unmask_byte raw key i])
                      @ map (unmask_byte raw key) [i + 1..<pLen]"
      using True "1.prems" by (intro "1.IH") (auto simp: unmask_byte_def)
    also have "take (i + 1) (out[i := unmask_byte raw key i]) = take i out @ [unmask_byte raw key i]"
      using True "1.prems" by (simp add: take_Suc_conv_app_nth)
    finally show ?thesis using True by (simp add: upt_conv_Cons)
  next
    case False
    with "1.prems" show ?thesis by (subst unmask_loop.simps) simp
  qed
qed

lemma unmask_closed: "unmask raw pLen key = map (unmask_byte raw key) [0..<pLen]"
  by (simp add: unmask_def buf_alloc_def unmask_loop_closed)

lemma length_unmask: "length (unmask raw pLen key) = pLen"
  by (simp add: unmask_closed)

lemma unmask_nth: "i < pLen \<Longrightarrow> unmask raw pLen key ! i = unmask_byte raw key i"
  by (simp add: unmask_closed)

lemma unmask_twice:
  "unmask (unmask raw pLen key) pLen key = take pLen raw @ replicate (pLen - length raw) 0"
proof (rule nth_equalityI)
  show "length (unmask (unmask raw pLen key) pLen key)
        = length (take pLen raw @ replicate (pLen - length raw) 0)"
    by (simp add: length_unmask)
next
  fix i assume "i < length (unmask (unmask raw pLen key) pLen key)"
  then have i: "i < pLen" by (simp add: length_unmask)
  have "unmask (unmask raw pLen key) pLen key ! i
        = (buf_index raw i XOR buf_index key (i mod 4)) XOR buf_index key (i mod 4)"
    using i by (simp add: unmask_nth unmask_byte_def buf_index_def length_unmask)
  also have "\<dots> = buf_index raw i"
    by (simp add: xor.assoc)
  also have "\<dots> = (take pLen raw @ replicate (pLen - length raw) 0) ! i"
    using i by (auto simp: buf_index_def nth_append)
  finally show "unmask (unmask raw pLen key) pLen key ! i
                = (take pLen raw @ replicate (pLen - length raw) 0) ! i" .
qed

text \<open>
  Claim C3, as stated: applying \<open>unmask\<close> twice with the same length and key gives
  \<open>rawPayload\<close> restricted to its first \<open>payloadLen\<close> bytes, for every \<open>rawPayload\<close>,
  \<open>payloadLen\<close> and key. It fails when \<open>payloadLen\<close> exceeds the length of
  \<open>rawPayload\<close>: on the empty input with \<open>payloadLen = 1\<close> the first pass yields the key
  byte, the second pass the byte 0, a buffer of length 1, while the restriction of the
  empty input is empty.
\<close>

theorem unmask_twice_counterexample:
  "unmask (unmask [] 1 [1, 2, 3, 4]) 1 [1, 2, 3, 4] \<noteq> take 1 []"
  by (simp add: unmask_closed unmask_byte_def buf_index_def)

text \<open>
  Claim C3, amended: for every \<open>rawPayload\<close>, every \<open>payloadLen\<close> and every masking key,
  applying \<open>unmask\<close> twice with the same length and key returns the first \<open>payloadLen\<close>
  bytes of \<open>rawPayload\<close>, followed by zero bytes up to \<open>payloadLen\<close> when \<open>rawPayload\<close> is
  shorter than that (so it returns \<open>rawPayload\<close> itself when \<open>payloadLen\<close> is its length);
  the output of \<open>unmask\<close> has length exactly \<open>payloadLen\<close>. The model of \<open>unmask\<close> is a
  function of its three arguments only, which is how the absence of side effects is
  rendered.
\<close>

theorem unmask_involution:
  "unmask (unmask raw pLen key) pLen key = take pLen raw @ replicate (pLen - length raw) 0
   \<and> length (unmask raw pLen key) = pLen
   \<and> (length raw = pLen \<longrightarrow> unmask (unmask raw pLen key) pLen key = raw)"
  by (simp add: unmask_twice length_unmask)

theorem unmask_involution_witness:
  "unmask (unmask [5, 6, 7, 8, 9] 5 [1, 2, 3, 4]) 5 [1, 2, 3, 4] = [5, 6, 7, 8, 9]
   \<and> length (unmask [5, 6, 7, 8, 9] 5 [1, 2, 3, 4]) = 5"
  using unmask_involution [of "[5, 6, 7, 8, 9]" 5 "[1, 2, 3, 4]"] by simp

subsection \<open>The encoder\<close>

lemma copy_loop_closed:
  "i \<le> length data \<Longrightarrow> off + (length data - i) \<le> length rf \<Longrightarrow>
   copy_loop data i off rf = Inr (take off rf @ drop i data @ drop (off + (length data - i)) rf)"
proof (induction data i off rf rule: copy_loop.induct)
  case (1 data i off rf)
  show ?case
  proof (cases "i < length data")
    case True
    then have off: "off < length rf" using "1.prems" by simp
    let ?rf = "rf[off := data ! i]"
    have w: "writeUInt8 rf (unat (data ! i)) off = Inr ?rf"
      using off by (rule writeUInt8_byte)
    have "copy_loop data i off rf = copy_loop data (i + 1) (off + 1) ?rf"
      using True w by (subst copy_loop.simps) simp
    also have "\<dots> = Inr (take (off + 1) ?rf @ drop (i + 1) data
                          @ drop (off + 1 + (length data - (i + 1))) ?rf)"
      using True "1.prems" by (intro "1.IH" [OF True w]) auto
    also have "take (off + 1) ?rf = take off rf @ [data ! i]"
      using off by (simp add: take_Suc_conv_app_nth)
    also have "off + 1 + (length data - (i + 1)) = off + (length data - i)"
      using True by arith
    also have "drop (off + (length data - i)) ?rf = drop (off + (length data - i)) rf"
      using True by simp
    finally show ?thesis using True by (simp add: Cons_nth_drop_Suc)
  next
    case False
    with "1.prems" show ?thesis by (subst copy_loop.simps) simp
  qed
qed

text \<open>
  What \<open>createFrame\<close> returns, in closed form. A length above 255 does not fit the
  second byte and \<open>writeUInt8\<close> throws. For the length 126 the payload is written from
  offset 3 on: it overwrites the low byte of the 16-bit length field and leaves the
  last byte of the allocated frame at 0.
\<close>

lemma createFrame_closed:
  "createFrame data options =
     (if length data > 255 then Inl RangeError
      else if length data = 126
           then Inr ([of_nat (generateFirstByte options), 126, 0] @ data @ [0])
           else Inr ([of_nat (generateFirstByte options), of_nat (length data)] @ data))"
proof -
  have fb: "\<not> generateFirstByte options > 255" by (simp add: generateFirstByte_def)
  show ?thesis
  proof (cases "length data > 255")
    case True
    then show ?thesis using fb
      by (simp add: createFrame_def Let_def writeUInt8_def buf_alloc_def)
  next
    case False
    show ?thesis
    proof (cases "length data = 126")
      case True
      let ?fb = "of_nat (generateFirstByte options) :: byte"
      have "replicate 130 (0::byte) = replicate 4 0 @ replicate 126 0"
        by (simp add: replicate_add [symmetric])
      moreover have "replicate 4 (0::byte) = [0, 0, 0, 0]"
        by (simp add: numeral_eq_Suc)
      ultimately have r: "buf_alloc 130 = 0 # 0 # 0 # 0 # replicate 126 0"
        by (simp add: buf_alloc_def)
      have w1: "writeUInt8 (buf_alloc 130) (generateFirstByte options) 0
                  = Inr (?fb # 0 # 0 # 0 # replicate 126 0)"
        using fb by (simp add: writeUInt8_def r)
      have w2: "writeUInt8 (?fb # 0 # 0 # 0 # replicate 126 0) 126 (Suc 0)
                  = Inr (?fb # 126 # 0 # 0 # replicate 126 0)"
        by (simp add: writeUInt8_def)
      have w3: "writeUInt16BE (?fb # 126 # 0 # 0 # replicate 126 0) 126 2
                  = Inr (?fb # 126 # 0 # 126 # replicate 126 0)"
        by (simp add: writeUInt16BE_def numeral_2_eq_2 numeral_3_eq_3)
      have c: "copy_loop data 0 3 (?fb # 126 # 0 # 126 # replicate 126 0)
                  = Inr ([?fb, 126, 0] @ data @ [0])"
        using True by (subst copy_loop_closed) (simp_all add: numeral_3_eq_3)
      show ?thesis using True
        by (simp add: createFrame_def Let_def w1 w2 w3 c)
    next
      case F2: False
      have r: "replicate (2 + length data) (0::byte) = 0 # 0 # replicate (length data) 0"
        by (simp add: numeral_eq_Suc)
      show ?thesis using False F2 fb
        by (simp add: createFrame_def Let_def writeUInt8_def buf_alloc_def r copy_loop_closed)
    qed
  qed
qed

lemma createFrame_too_long:
  "length data > 255 \<Longrightarrow> createFrame data options = Inl RangeError"
  by (simp add: createFrame_closed)

lemma createFrame_returns:
  "length data \<le> 255 \<Longrightarrow> \<exists>bs. createFrame data options = Inr bs"
  by (simp add: createFrame_closed)

lemma createFrame_length:
  "createFrame data options = Inr bs \<Longrightarrow>
   length bs = 2 + (if length data = 126 then 2 else 0) + length data"
  by (auto simp: createFrame_closed split: if_splits)

lemma createFrame_payload:
  "createFrame data options = Inr bs \<Longrightarrow> length data \<noteq> 126 \<Longrightarrow> drop 2 bs = data"
  by (auto simp: createFrame_closed split: if_splits)

text \<open>Below 128 bytes of payload the second byte of the frame has its top bit clear.\<close>

lemma createFrame_mask_bit_small:
  assumes "length data < 128" and "createFrame data options = Inr bs"
  shows "\<not> bit (bs ! 1) 7"
proof -
  have "\<not> bit (of_nat (length data) :: byte) 7"
    using assms(1) by (rule bit7_small)
  moreover have "\<not> bit (126 :: byte) 7" by simp
  ultimately show ?thesis using assms
    by (auto simp: createFrame_closed split: if_splits)
qed

text \<open>
  Claim C6: for every payload and every options value, the byte sequence returned by
  \<open>createFrame\<close> has the mask bit (bit 7 of the second byte) equal to 0. The code breaks
  it for a payload of 128 bytes: only the length 126 gets an extended length field, every
  other length is written into the second byte as it is, and 128 is the byte \<open>0x80\<close>,
  whose bit 7 is the mask bit.
\<close>

theorem createFrame_mask_bit_set:
  "createFrame (replicate 128 0x41) \<lparr>ICreateFrameOptions.opcode = 1, fin = True\<rparr>
     = Inr ([129, 128] @ replicate 128 0x41)
   \<and> bit (([129, 128] @ replicate 128 0x41 :: buffer) ! 1) 7"
  by (simp add: createFrame_closed generateFirstByte_def)

text \<open>
  Claim C7: \<open>createFrame\<close> returns a byte sequence of length
  \<open>2 + (2 if payload.length == 126 else 0) + payload.length\<close> with the payload copied
  verbatim after the header. The length is as claimed whenever a frame is returned
  (\<open>createFrame_length\<close>), but for a payload of 126 bytes the copy starts at offset 3,
  inside the 4-byte header: the 16-bit length field reads 65 (the first payload byte)
  instead of 126, and the bytes after the header are the payload without its first byte,
  followed by a zero byte.
\<close>

theorem createFrame_126_misplaced:
  "createFrame (replicate 126 0x41) \<lparr>ICreateFrameOptions.opcode = 1, fin = True\<rparr>
     = Inr ([129, 126, 0] @ replicate 126 0x41 @ [0])
   \<and> drop 4 ([129, 126, 0] @ replicate 126 0x41 @ [0] :: buffer) = replicate 125 0x41 @ [0]
   \<and> drop 4 ([129, 126, 0] @ replicate 126 0x41 @ [0] :: buffer) \<noteq> replicate 126 0x41
   \<and> readUInt16BE ([129, 126, 0] @ replicate 126 0x41 @ [0]) 2 = Inr 65"
proof -
  have a: "createFrame (replicate 126 0x41) \<lparr>ICreateFrameOptions.opcode = 1, fin = True\<rparr>
     = Inr ([129, 126, 0] @ replicate 126 0x41 @ [0])"
    by (simp add: createFrame_closed generateFirstByte_def)
  have r: "replicate 126 (0x41 :: byte) = 0x41 # replicate 125 0x41"
    by (simp add: replicate_Suc [symmetric] del: replicate_Suc)
  have b: "drop 4 ([129, 126, 0] @ replicate 126 0x41 @ [0] :: buffer) = replicate 125 0x41 @ [0]"
    by (simp add: r)
  have "last (replicate 125 (0x41 :: byte) @ [0]) \<noteq> last (replicate 126 (0x41 :: byte))"
    by simp
  then have c: "replicate 125 (0x41 :: byte) @ [0] \<noteq> replicate 126 0x41"
    by metis
  have d: "readUInt16BE ([129, 126, 0] @ replicate 126 0x41 @ [0]) 2 = Inr 65"
    by code_simp
  show ?thesis using a b c d by simp
qed

subsection \<open>The decoder on whole frames\<close>

lemma readFragmentedBuffer_idle:
  "fragmentedFrame this = None \<Longrightarrow> readFragmentedBuffer this chunk = (this, chunk)"
  by (simp add: readFragmentedBuffer_def)

text \<open>
  The header of an unmasked frame with one of the encoder's four first bytes and a
  length below 126.
\<close>

lemma readHeader_short_unmasked:
  assumes fb: "fb \<in> {129, 1, 130, 2}" and n: "n < 126"
  shows "readHeader (of_nat fb # of_nat n # data) =
     Inr \<lparr>IFragmentedFrame.fin = (fb \<ge> 128), rsv1 = 0, rsv2 = 0, rsv3 = 0,
          mask_flag = False, opcode = fb mod 16, payloadLen = n,
          rawPayload = take n data, maskingKey = buf_alloc 4, byteOffset = 2\<rparr>"
proof -
  have u2: "unat (of_nat n :: byte) = n" using n by (simp add: unat_of_nat)
  have d: "drop_bit 7 n = 0" using n by (simp add: drop_bit_eq_div)
  have l: "n AND 127 = n" using n by (simp add: and_127)
  show ?thesis
    using fb n
    by (auto simp add: readHeader_def readExtendedLength_def readUInt8_def u2 d l Let_def
        and_15 buf_slice_nat2 drop_bit_eq_div)
qed

text \<open>
  Encoding and decoding agree for every payload shorter than 126 bytes (which covers the
  lengths 0, 1 and 125 of claim C1) and the four option values of the encoder.
\<close>

lemma roundtrip_below_126:
  assumes n: "length data < 126" and op: "ICreateFrameOptions.opcode options \<in> {1, 2}"
  shows "createFrame data options
           = Inr ([of_nat (generateFirstByte options), of_nat (length data)] @ data)
     \<and> readFrame newParser ([of_nat (generateFirstByte options), of_nat (length data)] @ data)
           = (\<lparr>parsedFrames =
                 [\<lparr>IFrame.fin = ICreateFrameOptions.fin options, rsv1 = 0, rsv2 = 0, rsv3 = 0,
                   opcode = ICreateFrameOptions.opcode options, mask_flag = False,
                   payloadLen = length data, payload = data,
                   frameLen = 2 + length data\<rparr>],
               fragmentedFrame = None\<rparr>, Inr [])"
proof -
  let ?fb = "generateFirstByte options"
  have fb: "?fb \<in> {129, 1, 130, 2}" by (simp add: generateFirstByte_def)
  have f: "(?fb \<ge> 128) = ICreateFrameOptions.fin options"
    using op by (auto simp: generateFirstByte_def)
  have o: "?fb mod 16 = ICreateFrameOptions.opcode options"
    using op by (auto simp: generateFirstByte_def)
  have c: "createFrame data options = Inr ([of_nat ?fb, of_nat (length data)] @ data)"
    using n by (simp add: createFrame_closed)
  have r: "readFrame newParser ([of_nat ?fb, of_nat (length data)] @ data) =
      (\<lparr>parsedFrames =
                 [\<lparr>IFrame.fin = ICreateFrameOptions.fin options, rsv1 = 0, rsv2 = 0, rsv3 = 0,
                   opcode = ICreateFrameOptions.opcode options, mask_flag = False,
                   payloadLen = length data, payload = data,
                   frameLen = 2 + length data\<rparr>],
               fragmentedFrame = None\<rparr>, Inr [])"
    by (simp add: readFrame_def readFragmentedBuffer_def newParser_def
        readHeader_short_unmasked [OF fb n] buf_slice_from_nonneg f o buf_alloc_def
        nat_add_distrib)
  show ?thesis using c r by simp
qed

text \<open>
  Claim C1: for payload lengths 0, 1, 125 and 126, decoding the output of \<open>createFrame\<close>
  on a parser with no pending frame yields exactly one frame with the input payload. The
  code breaks it at length 126: the encoder writes the payload over the low byte of the
  extended length field, the decoder reads the length 65 there, emits a frame with a
  65-byte payload and returns the other 61 bytes as the start of a next frame.
\<close>

theorem roundtrip_126_fails:
  "createFrame (replicate 126 0x41) \<lparr>ICreateFrameOptions.opcode = 1, fin = True\<rparr>
     = Inr ([129, 126, 0] @ replicate 126 0x41 @ [0])
  \<and> readFrame newParser ([129, 126, 0] @ replicate 126 0x41 @ [0])
   = (\<lparr>parsedFrames = [\<lparr>IFrame.fin = True, rsv1 = 0, rsv2 = 0, rsv3 = 0, opcode = 1,
         mask_flag = False, payloadLen = 65, payload = replicate 65 0x41, frameLen = 69\<rparr>],
        fragmentedFrame = None\<rparr>, Inr (replicate 60 0x41 @ [0]))"
proof -
  have a: "createFrame (replicate 126 0x41) \<lparr>ICreateFrameOptions.opcode = 1, fin = True\<rparr>
     = Inr ([129, 126, 0] @ replicate 126 0x41 @ [0])"
    by (simp add: createFrame_closed generateFirstByte_def)
  have b: "readFrame newParser ([129, 126, 0] @ replicate 126 0x41 @ [0])
   = (\<lparr>parsedFrames = [\<lparr>IFrame.fin = True, rsv1 = 0, rsv2 = 0, rsv3 = 0, opcode = 1,
         mask_flag = False, payloadLen = 65, payload = replicate 65 0x41, frameLen = 69\<rparr>],
        fragmentedFrame = None\<rparr>, Inr (replicate 60 0x41 @ [0]))"
    by code_simp
  show ?thesis using a b by simp
qed

subsection \<open>Header parsing\<close>

lemma readExtendedLength_off:
  "readExtendedLength chunk l = Inr (p, off) \<Longrightarrow> 2 \<le> off"
  unfolding readExtendedLength_def
  by (auto split: sum.splits if_splits prod.splits)

lemma readExtendedLength_take:
  "readExtendedLength chunk l = Inr (p, off) \<Longrightarrow> off \<le> k \<Longrightarrow>
   readExtendedLength (take k chunk) l = Inr (p, off)"
  unfolding readExtendedLength_def
  by (auto simp: readUInt16BE_take readUInt32BE_take split: sum.splits if_splits prod.splits)

text \<open>What a successful header parse returns, in terms of the two reads and the extended length.\<close>

lemma readHeader_Inr:
  assumes "readHeader chunk = Inr h"
  shows "\<exists>b0 b1 p off. readUInt8 chunk 0 = Inr b0 \<and> readUInt8 chunk 1 = Inr b1
      \<and> even (drop_bit 6 b0) \<and> even (drop_bit 5 b0) \<and> even (drop_bit 4 b0)
      \<and> readExtendedLength chunk (b1 AND 127) = Inr (p, off)
      \<and> h = \<lparr>IFragmentedFrame.fin = odd (drop_bit 7 b0), rsv1 = 0, rsv2 = 0, rsv3 = 0,
              mask_flag = odd (drop_bit 7 b1), opcode = b0 AND 15, payloadLen = p,
              rawPayload = take p (drop (if odd (drop_bit 7 b1) then off + 4 else off) chunk),
              maskingKey = (if odd (drop_bit 7 b1) then take 4 (drop off chunk) else buf_alloc 4),
              byteOffset = (if odd (drop_bit 7 b1) then off + 4 else off)\<rparr>"
  using assms unfolding readHeader_def Let_def
  by (auto simp: buf_slice_nat2 buf_slice_key mod_2_eq_odd split: sum.splits if_splits prod.splits)


lemma readHeader_intro:
  assumes "readUInt8 chunk 0 = Inr b0" and "readUInt8 chunk 1 = Inr b1"
    and "even (drop_bit 6 b0)" and "even (drop_bit 5 b0)" and "even (drop_bit 4 b0)"
    and "readExtendedLength chunk (b1 AND 127) = Inr (p, off)"
  shows "readHeader chunk =
     Inr \<lparr>IFragmentedFrame.fin = odd (drop_bit 7 b0), rsv1 = 0, rsv2 = 0, rsv3 = 0,
              mask_flag = odd (drop_bit 7 b1), opcode = b0 AND 15, payloadLen = p,
              rawPayload = take p (drop (if odd (drop_bit 7 b1) then off + 4 else off) chunk),
              maskingKey = (if odd (drop_bit 7 b1) then take 4 (drop off chunk) else buf_alloc 4),
              byteOffset = (if odd (drop_bit 7 b1) then off + 4 else off)\<rparr>"
  using assms unfolding readHeader_def Let_def
  by (simp add: buf_slice_nat2 buf_slice_key mod_2_eq_odd)

lemma readHeader_rawPayload:
  "readHeader chunk = Inr h \<Longrightarrow>
   rawPayload h = take (IFragmentedFrame.payloadLen h) (drop (byteOffset h) chunk)"
  by (drule readHeader_Inr) auto

lemma readHeader_byteOffset_ge2:
  "readHeader chunk = Inr h \<Longrightarrow> 2 \<le> byteOffset h"
  by (drule readHeader_Inr) (auto dest: readExtendedLength_off)

lemma readHeader_take:
  assumes h: "readHeader bs = Inr h" and k: "byteOffset h \<le> k"
  shows "readHeader (take k bs) =
         Inr (h\<lparr>rawPayload := take (IFragmentedFrame.payloadLen h)
                                (drop (byteOffset h) (take k bs))\<rparr>)"
proof -
  from readHeader_Inr [OF h] obtain b0 b1 p off where
    r0: "readUInt8 bs 0 = Inr b0" and r1: "readUInt8 bs 1 = Inr b1"
    and rsv: "even (drop_bit 6 b0)" "even (drop_bit 5 b0)" "even (drop_bit 4 b0)"
    and ext: "readExtendedLength bs (b1 AND 127) = Inr (p, off)"
    and hh: "h = \<lparr>IFragmentedFrame.fin = odd (drop_bit 7 b0), rsv1 = 0, rsv2 = 0, rsv3 = 0,
              mask_flag = odd (drop_bit 7 b1), opcode = b0 AND 15, payloadLen = p,
              rawPayload = take p (drop (if odd (drop_bit 7 b1) then off + 4 else off) bs),
              maskingKey = (if odd (drop_bit 7 b1) then take 4 (drop off bs) else buf_alloc 4),
              byteOffset = (if odd (drop_bit 7 b1) then off + 4 else off)\<rparr>"
    by blast
  have off2: "2 \<le> off" using ext by (rule readExtendedLength_off)
  have offk: "off \<le> k" using k hh by (auto split: if_splits)
  have t0: "readUInt8 (take k bs) 0 = Inr b0" using r0 off2 offk by (simp add: readUInt8_take)
  have t1: "readUInt8 (take k bs) 1 = Inr b1" using r1 off2 offk by (simp add: readUInt8_take)
  have te: "readExtendedLength (take k bs) (b1 AND 127) = Inr (p, off)"
    using ext offk by (rule readExtendedLength_take)
  have key: "odd (drop_bit 7 b1) \<Longrightarrow> take 4 (drop off (take k bs)) = take 4 (drop off bs)"
    using k hh by (simp add: drop_take min_def)
  show ?thesis
    unfolding readHeader_intro [OF t0 t1 rsv te]
    by (simp add: hh key)
qed

lemma readHeader_rsv:
  assumes "chunk \<noteq> []" and "bit (hd chunk) 6 \<or> bit (hd chunk) 5 \<or> bit (hd chunk) 4"
  shows "readHeader chunk = Inl ProtocolError"
proof -
  obtain b rest where c: "chunk = b # rest" using assms(1) by (cases chunk) auto
  show ?thesis using assms(2)
    by (auto simp: c readHeader_def readUInt8_def Let_def byte_bits)
qed

text \<open>
  Claim C4: for every input chunk whose first byte has a nonzero RSV1, RSV2 or RSV3 bit
  (bits 6, 5 and 4), \<open>readFrame\<close> on a parser with no pending partial frame raises a
  \<open>ProtocolError\<close>; the parser is left exactly as it was, so the queue is unchanged and
  no pending partial frame is created.
\<close>

theorem readFrame_rsv_rejected:
  assumes "fragmentedFrame this = None" and "chunk \<noteq> []"
    and "bit (hd chunk) 6 \<or> bit (hd chunk) 5 \<or> bit (hd chunk) 4"
  shows "readFrame this chunk = (this, Inl ProtocolError)"
  using assms by (simp add: readFrame_def readFragmentedBuffer_idle readHeader_rsv)

theorem readFrame_rsv_rejected_witness:
  "fragmentedFrame newParser = None \<and> [0xC1, 0x01, 0x41] \<noteq> ([] :: buffer)
   \<and> bit (hd [0xC1, 0x01, 0x41 :: byte]) 6
   \<and> readFrame newParser [0xC1, 0x01, 0x41] = (newParser, Inl ProtocolError)"
proof -
  have a: "fragmentedFrame newParser = None" by (simp add: newParser_def)
  have b: "[0xC1, 0x01, 0x41] \<noteq> ([] :: buffer)" by simp
  have c: "bit (hd [0xC1, 0x01, 0x41 :: byte]) 6" by simp
  from c have d: "bit (hd [0xC1, 0x01, 0x41 :: byte]) 6 \<or> bit (hd [0xC1, 0x01, 0x41 :: byte]) 5
     \<or> bit (hd [0xC1, 0x01, 0x41 :: byte]) 4" by blast
  show ?thesis using a b c readFrame_rsv_rejected [OF a b d] by simp
qed


lemma readHeader_len127:
  assumes len: "10 \<le> length chunk"
    and rsv: "\<not> bit (chunk ! 0) 6" "\<not> bit (chunk ! 0) 5" "\<not> bit (chunk ! 0) 4"
    and l7: "unat (chunk ! 1) mod 128 = 127"
    and hi: "readUInt32BE chunk 2 = Inr hi" and lo: "readUInt32BE chunk 6 = Inr lo"
  shows "readHeader chunk =
     (if hi \<noteq> 0 then Inl UnsupportedLengthError
      else Inr \<lparr>IFragmentedFrame.fin = bit (chunk ! 0) 7, rsv1 = 0, rsv2 = 0, rsv3 = 0,
                mask_flag = bit (chunk ! 1) 7, opcode = unat (chunk ! 0) mod 16,
                payloadLen = lo,
                rawPayload = (if bit (chunk ! 1) 7 then take lo (drop 14 chunk)
                              else take lo (drop 10 chunk)),
                maskingKey = (if bit (chunk ! 1) 7 then take 4 (drop 10 chunk) else buf_alloc 4),
                byteOffset = 10 + (if bit (chunk ! 1) 7 then 4 else 0)\<rparr>)"
proof -
  have r0: "readUInt8 chunk 0 = Inr (unat (chunk ! 0))"
    and r1: "readUInt8 chunk (Suc 0) = Inr (unat (chunk ! 1))"
    using len by (auto simp: readUInt8_def)
  have lo': "readUInt32BE chunk (2 + 4) = Inr lo" using lo by simp
  have s1: "buf_slice chunk 10 14 = take 4 (drop 10 chunk)"
    using buf_slice_nat [of chunk 10 14] by simp
  have s2: "buf_slice chunk 14 (14 + int lo) = take lo (drop 14 chunk)"
    using buf_slice_nat [of chunk 14 "14 + lo"] by simp
  have s3: "buf_slice chunk 10 (10 + int lo) = take lo (drop 10 chunk)"
    using buf_slice_nat [of chunk 10 "10 + lo"] by simp
  show ?thesis
    using rsv l7
    by (simp add: readHeader_def readExtendedLength_def r0 r1 Let_def byte_bits and_127 and_15
        hi lo lo' s1 s2 s3)
qed

text \<open>
  Claim C5, as stated: every input chunk whose header declares the 7-bit length 127 and
  whose extended length field has a nonzero first half makes \<open>readFrame\<close> raise
  \<open>UnsupportedLengthError\<close>. It fails when the first byte also has a reserved bit set:
  that test comes first and raises \<open>ProtocolError\<close>. It also fails on a parser that is
  waiting for the rest of a payload: the chunk is then payload, no header is read and
  nothing is raised.
\<close>

theorem readFrame_len127_counterexample:
  "unat ([0xC1, 0x7F, 0, 0, 0, 1, 0, 0, 0, 0 :: byte] ! 1) mod 128 = 127
   \<and> readUInt32BE [0xC1, 0x7F, 0, 0, 0, 1, 0, 0, 0, 0] 2 = Inr 1
   \<and> readFrame newParser [0xC1, 0x7F, 0, 0, 0, 1, 0, 0, 0, 0] = (newParser, Inl ProtocolError)
   \<and> readFrame newParser [0xC1, 0x7F, 0, 0, 0, 1, 0, 0, 0, 0]
        \<noteq> (newParser, Inl UnsupportedLengthError)
   \<and> snd (readFrame (fst (readFrame newParser [0x81, 0x14]))
              [0x81, 0x7F, 0, 0, 0, 1, 0, 0, 0, 0]) = Inr []"
proof -
  have a: "readFrame newParser [0xC1, 0x7F, 0, 0, 0, 1, 0, 0, 0, 0] = (newParser, Inl ProtocolError)"
    by code_simp
  have b: "unat ([0xC1, 0x7F, 0, 0, 0, 1, 0, 0, 0, 0 :: byte] ! 1) mod 128 = 127" by simp
  have c: "readUInt32BE [0xC1, 0x7F, 0, 0, 0, 1, 0, 0, 0, 0] 2 = Inr 1"
    by (simp add: readUInt32BE_def)
  have d: "snd (readFrame (fst (readFrame newParser [0x81, 0x14]))
              [0x81, 0x7F, 0, 0, 0, 1, 0, 0, 0, 0]) = Inr []"
    by code_simp
  show ?thesis using a b c d by simp
qed

text \<open>
  Claim C5, amended: on a parser with no pending partial frame, for every input chunk of
  at least 10 bytes whose first byte has the three reserved bits clear and whose second
  byte declares the 7-bit length 127: if the first (most significant) 32-bit half of the
  8-byte extended length is nonzero, \<open>readFrame\<close> raises \<open>UnsupportedLengthError\<close> and
  leaves the parser unchanged; if it is zero, \<open>payloadLen\<close> is the second half and the
  header offset advances by 8 (to 10, plus 4 when a masking key follows), and the call
  either stores a pending partial frame or emits a frame with that \<open>payloadLen\<close>.
\<close>

theorem readFrame_len127:
  assumes idle: "fragmentedFrame this = None"
    and len: "10 \<le> length chunk"
    and rsv: "\<not> bit (chunk ! 0) 6" "\<not> bit (chunk ! 0) 5" "\<not> bit (chunk ! 0) 4"
    and l7: "unat (chunk ! 1) mod 128 = 127"
    and hi: "readUInt32BE chunk 2 = Inr hi" and lo: "readUInt32BE chunk 6 = Inr lo"
  shows "(hi \<noteq> 0 \<longrightarrow> readFrame this chunk = (this, Inl UnsupportedLengthError))
     \<and> (hi = 0 \<longrightarrow>
          (\<exists>h. readHeader chunk = Inr h \<and> IFragmentedFrame.payloadLen h = lo
               \<and> byteOffset h = 2 + 8 + (if IFragmentedFrame.mask_flag h then 4 else 0)
               \<and> (if length (rawPayload h) < lo
                   then readFrame this chunk = (this\<lparr>fragmentedFrame := Some h\<rparr>, Inr [])
                   else parsedFrames (fst (readFrame this chunk)) \<noteq> []
                      \<and> IFrame.payloadLen (last (parsedFrames (fst (readFrame this chunk)))) = lo
                      \<and> snd (readFrame this chunk)
                          = Inr (drop (byteOffset h + lo) chunk))))"
proof -
  have ne: "chunk \<noteq> []" using len by auto
  note h = readHeader_len127 [OF len rsv l7 hi lo]
  show ?thesis
  proof (cases "hi = 0")
    case False
    then show ?thesis
      by (simp add: readFrame_def readFragmentedBuffer_idle [OF idle] ne h)
  next
    case True
    then obtain h' where h': "readHeader chunk = Inr h'"
      and p: "IFragmentedFrame.payloadLen h' = lo"
      and b: "byteOffset h' = 2 + 8 + (if IFragmentedFrame.mask_flag h' then 4 else 0)"
      using h by simp
    have "if length (rawPayload h') < lo
          then readFrame this chunk = (this\<lparr>fragmentedFrame := Some h'\<rparr>, Inr [])
          else parsedFrames (fst (readFrame this chunk)) \<noteq> []
             \<and> IFrame.payloadLen (last (parsedFrames (fst (readFrame this chunk)))) = lo
             \<and> snd (readFrame this chunk) = Inr (drop (byteOffset h' + lo) chunk)"
      by (simp add: readFrame_def readFragmentedBuffer_idle [OF idle] ne h' p Let_def
          buf_alloc_def buf_slice_from_nat2)
    then show ?thesis using True h' p b by blast
  qed
qed


theorem readFrame_len127_witness:
  "readFrame newParser [0x81, 0x7F, 0, 0, 0, 1, 0, 0, 0, 0] = (newParser, Inl UnsupportedLengthError)
   \<and> (\<exists>h. readHeader [0x81, 0x7F, 0, 0, 0, 0, 0, 0, 0, 1, 7] = Inr h
          \<and> IFragmentedFrame.payloadLen h = 1
          \<and> byteOffset h = 2 + 8 + (if IFragmentedFrame.mask_flag h then 4 else 0))"
proof -
  let ?c1 = "[0x81, 0x7F, 0, 0, 0, 1, 0, 0, 0, 0] :: buffer"
  let ?c2 = "[0x81, 0x7F, 0, 0, 0, 0, 0, 0, 0, 1, 7] :: buffer"
  have a: "fragmentedFrame newParser = None" by (simp add: newParser_def)
  have n1: "10 \<le> length ?c1" and n2: "10 \<le> length ?c2" by simp_all
  have b1: "\<not> bit (?c1 ! 0) 6" "\<not> bit (?c1 ! 0) 5" "\<not> bit (?c1 ! 0) 4" by simp_all
  have b2: "\<not> bit (?c2 ! 0) 6" "\<not> bit (?c2 ! 0) 5" "\<not> bit (?c2 ! 0) 4" by simp_all
  have m1: "unat (?c1 ! 1) mod 128 = 127" and m2: "unat (?c2 ! 1) mod 128 = 127" by simp_all
  have h1: "readUInt32BE ?c1 2 = Inr 1" by (simp add: readUInt32BE_def)
  have l1: "readUInt32BE ?c1 6 = Inr 0" by (simp add: readUInt32BE_def)
  have h2: "readUInt32BE ?c2 2 = Inr 0" by (simp add: readUInt32BE_def)
  have l2: "readUInt32BE ?c2 6 = Inr 1" by (simp add: readUInt32BE_def)
  have 1: "readFrame newParser ?c1 = (newParser, Inl UnsupportedLengthError)"
    using readFrame_len127 [OF a n1 b1 m1 h1 l1] by simp
  have 2: "\<exists>h. readHeader ?c2 = Inr h
          \<and> IFragmentedFrame.payloadLen h = 1
          \<and> byteOffset h = 2 + 8 + (if IFragmentedFrame.mask_flag h then 4 else 0)"
    using readFrame_len127 [OF a n2 b2 m2 h2 l2] by blast
  show ?thesis using 1 2 by simp
qed

subsection \<open>Completing a pending partial frame\<close>

lemma readFragmentedBuffer_buffering:
  assumes ff: "fragmentedFrame this = Some ff"
    and short: "length (rawPayload ff) + length chunk < IFragmentedFrame.payloadLen ff"
  shows "readFragmentedBuffer this chunk
           = (this\<lparr>fragmentedFrame := Some (ff\<lparr>rawPayload := rawPayload ff @ chunk\<rparr>)\<rparr>, [])"
proof -
  have "int (IFragmentedFrame.payloadLen ff) - int (length (rawPayload ff)) > int (length chunk)"
    using short by linarith
  then show ?thesis
    by (simp add: readFragmentedBuffer_def ff Let_def buf_concat_exact buf_alloc_def)
qed

lemma readFragmentedBuffer_completing:
  assumes ff: "fragmentedFrame this = Some ff"
    and le: "length (rawPayload ff) \<le> IFragmentedFrame.payloadLen ff"
    and enough: "IFragmentedFrame.payloadLen ff - length (rawPayload ff) \<le> length chunk"
  shows "readFragmentedBuffer this chunk =
     (\<lparr>parsedFrames = parsedFrames this @
         [\<lparr>IFrame.fin = IFragmentedFrame.fin ff,
           rsv1 = IFragmentedFrame.rsv1 ff,
           rsv2 = IFragmentedFrame.rsv2 ff,
           rsv3 = IFragmentedFrame.rsv3 ff,
           opcode = IFragmentedFrame.opcode ff,
           mask_flag = IFragmentedFrame.mask_flag ff,
           payloadLen = IFragmentedFrame.payloadLen ff,
           payload =
             (if IFragmentedFrame.mask_flag ff
              then unmask (rawPayload ff
                           @ take (IFragmentedFrame.payloadLen ff - length (rawPayload ff)) chunk)
                     (IFragmentedFrame.payloadLen ff) (maskingKey ff)
              else rawPayload ff
                   @ take (IFragmentedFrame.payloadLen ff - length (rawPayload ff)) chunk),
           frameLen = byteOffset ff + IFragmentedFrame.payloadLen ff\<rparr>],
        fragmentedFrame = None\<rparr>,
      drop (IFragmentedFrame.payloadLen ff - length (rawPayload ff)) chunk)"
proof -
  let ?p = "IFragmentedFrame.payloadLen ff" and ?l = "length (rawPayload ff)"
  let ?r = "?p - ?l"
  have r: "int ?p - int ?l = int ?r" using le by simp
  have ng: "\<not> int ?p - int ?l > int (length chunk)" using enough le by linarith
  have sl: "buf_slice chunk 0 (int ?p - int ?l) = take ?r chunk"
    using buf_slice_nat [of chunk 0 ?r] by (simp add: r)
  have sf: "buf_slice_from chunk (int ?p - int ?l) = drop ?r chunk"
    using buf_slice_from_nat [of chunk ?r] by (simp add: r)
  have cc: "buf_concat [rawPayload ff, take ?r chunk] ?p = rawPayload ff @ take ?r chunk"
    using le enough by (intro buf_concat_exact) simp
  have len: "length (rawPayload ff) + min (length chunk) ?r = ?p"
    using le enough by simp
  show ?thesis
    using ng le by (simp add: readFragmentedBuffer_def ff Let_def sl sf cc length_unmask len)
qed


text \<open>
  Claim C8: whenever a pending partial frame exists, with
  \<open>remainingByteLen = payloadLen - rawPayload.byteLength\<close> bytes still missing: if the
  next chunk supplies fewer bytes than that, the decoder appends the whole chunk to the
  buffered payload, stays pending, emits no frame and returns an empty remainder;
  otherwise it consumes exactly \<open>remainingByteLen\<close> bytes, unmasks if the mask flag is
  set, appends the completed frame to the queue, clears the pending state and returns
  the rest of the chunk. The hypothesis that at most \<open>payloadLen\<close> bytes are buffered
  holds for every pending frame the decoder creates (\<open>parser_inv\<close>).
\<close>

theorem readFragmentedBuffer_pending:
  assumes ff: "fragmentedFrame this = Some ff"
    and le: "length (rawPayload ff) \<le> IFragmentedFrame.payloadLen ff"
  shows "(length chunk < IFragmentedFrame.payloadLen ff - length (rawPayload ff) \<longrightarrow>
            readFragmentedBuffer this chunk
              = (this\<lparr>fragmentedFrame := Some (ff\<lparr>rawPayload := rawPayload ff @ chunk\<rparr>)\<rparr>, [])
          \<and> readFrame this chunk
              = (this\<lparr>fragmentedFrame := Some (ff\<lparr>rawPayload := rawPayload ff @ chunk\<rparr>)\<rparr>,
                 Inr []))
     \<and> (IFragmentedFrame.payloadLen ff - length (rawPayload ff) \<le> length chunk \<longrightarrow>
            readFragmentedBuffer this chunk =
              (\<lparr>parsedFrames = parsedFrames this @
                 [\<lparr>IFrame.fin = IFragmentedFrame.fin ff,
                   rsv1 = IFragmentedFrame.rsv1 ff,
                   rsv2 = IFragmentedFrame.rsv2 ff,
                   rsv3 = IFragmentedFrame.rsv3 ff,
                   opcode = IFragmentedFrame.opcode ff,
                   mask_flag = IFragmentedFrame.mask_flag ff,
                   payloadLen = IFragmentedFrame.payloadLen ff,
                   payload =
                     (if IFragmentedFrame.mask_flag ff
                      then unmask (rawPayload ff
                                   @ take (IFragmentedFrame.payloadLen ff - length (rawPayload ff)) chunk)
                             (IFragmentedFrame.payloadLen ff) (maskingKey ff)
                      else rawPayload ff
                           @ take (IFragmentedFrame.payloadLen ff - length (rawPayload ff)) chunk),
                   frameLen = byteOffset ff + IFragmentedFrame.payloadLen ff\<rparr>],
                fragmentedFrame = None\<rparr>,
               drop (IFragmentedFrame.payloadLen ff - length (rawPayload ff)) chunk))"
proof (intro conjI impI)
  assume short: "length chunk < IFragmentedFrame.payloadLen ff - length (rawPayload ff)"
  then have s: "length (rawPayload ff) + length chunk < IFragmentedFrame.payloadLen ff"
    by simp
  show b: "readFragmentedBuffer this chunk
        = (this\<lparr>fragmentedFrame := Some (ff\<lparr>rawPayload := rawPayload ff @ chunk\<rparr>)\<rparr>, [])"
    using ff s by (rule readFragmentedBuffer_buffering)
  show "readFrame this chunk
        = (this\<lparr>fragmentedFrame := Some (ff\<lparr>rawPayload := rawPayload ff @ chunk\<rparr>)\<rparr>, Inr [])"
    by (simp add: readFrame_def b)
next
  assume "IFragmentedFrame.payloadLen ff - length (rawPayload ff) \<le> length chunk"
  with ff le show "readFragmentedBuffer this chunk =
              (\<lparr>parsedFrames = parsedFrames this @
                 [\<lparr>IFrame.fin = IFragmentedFrame.fin ff,
                   rsv1 = IFragmentedFrame.rsv1 ff,
                   rsv2 = IFragmentedFrame.rsv2 ff,
                   rsv3 = IFragmentedFrame.rsv3 ff,
                   opcode = IFragmentedFrame.opcode ff,
                   mask_flag = IFragmentedFrame.mask_flag ff,
                   payloadLen = IFragmentedFrame.payloadLen ff,
                   payload =
                     (if IFragmentedFrame.mask_flag ff
                      then unmask (rawPayload ff
                                   @ take (IFragmentedFrame.payloadLen ff - length (rawPayload ff)) chunk)
                             (IFragmentedFrame.payloadLen ff) (maskingKey ff)
                      else rawPayload ff
                           @ take (IFragmentedFrame.payloadLen ff - length (rawPayload ff)) chunk),
                   frameLen = byteOffset ff + IFragmentedFrame.payloadLen ff\<rparr>],
                fragmentedFrame = None\<rparr>,
               drop (IFragmentedFrame.payloadLen ff - length (rawPayload ff)) chunk)"
    by (rule readFragmentedBuffer_completing)
qed

theorem readFragmentedBuffer_pending_witness:
  "readFragmentedBuffer
     \<lparr>parsedFrames = [],
      fragmentedFrame = Some \<lparr>IFragmentedFrame.fin = True, rsv1 = 0, rsv2 = 0, rsv3 = 0,
        mask_flag = True, opcode = 2, payloadLen = 3, rawPayload = [1],
        maskingKey = [1, 2, 3, 4], byteOffset = 6\<rparr>\<rparr> [2]
   = (\<lparr>parsedFrames = [],
       fragmentedFrame = Some \<lparr>IFragmentedFrame.fin = True, rsv1 = 0, rsv2 = 0, rsv3 = 0,
        mask_flag = True, opcode = 2, payloadLen = 3, rawPayload = [1, 2],
        maskingKey = [1, 2, 3, 4], byteOffset = 6\<rparr>\<rparr>, [])
   \<and> readFragmentedBuffer
     \<lparr>parsedFrames = [],
      fragmentedFrame = Some \<lparr>IFragmentedFrame.fin = True, rsv1 = 0, rsv2 = 0, rsv3 = 0,
        mask_flag = True, opcode = 2, payloadLen = 3, rawPayload = [1],
        maskingKey = [1, 2, 3, 4], byteOffset = 6\<rparr>\<rparr> [2, 3, 9]
   = (\<lparr>parsedFrames = [\<lparr>IFrame.fin = True, rsv1 = 0, rsv2 = 0, rsv3 = 0, opcode = 2,
         mask_flag = True, payloadLen = 3, payload = [0, 0, 0], frameLen = 9\<rparr>],
       fragmentedFrame = None\<rparr>, [9])"
proof -
  let ?ff = "\<lparr>IFragmentedFrame.fin = True, rsv1 = 0, rsv2 = 0, rsv3 = 0,
        mask_flag = True, opcode = 2, payloadLen = 3, rawPayload = [1],
        maskingKey = [1, 2, 3, 4], byteOffset = 6\<rparr>"
  let ?this = "\<lparr>parsedFrames = [], fragmentedFrame = Some ?ff\<rparr>"
  have a: "fragmentedFrame ?this = Some ?ff" by simp
  have b: "length (rawPayload ?ff) \<le> IFragmentedFrame.payloadLen ?ff" by simp
  have u: "unmask [1, 2, 3] 3 [1, 2, 3, 4] = [0, 0, 0]" by code_simp
  have 1: ?thesis
    using readFragmentedBuffer_pending [OF a b, of "[2]"]
      readFragmentedBuffer_pending [OF a b, of "[2, 3, 9]"]
    by (simp add: u)
  then show ?thesis .
qed


subsection \<open>One call of the decoder\<close>

lemma readFrame_unfold:
  "readFrame this chunk0 =
     (case readFragmentedBuffer this chunk0 of
        (this1, chunk) \<Rightarrow>
          if chunk = [] then (this1, Inr [])
          else (case readHeader chunk of
                  Inl e \<Rightarrow> (this1, Inl e)
                | Inr h \<Rightarrow>
                    if length (rawPayload h) < IFragmentedFrame.payloadLen h
                    then (this1\<lparr>fragmentedFrame := Some h\<rparr>, Inr [])
                    else (this1\<lparr>parsedFrames := parsedFrames this1 @ [frame_of h]\<rparr>,
                          Inr (drop (byteOffset h + IFragmentedFrame.payloadLen h) chunk))))"
  by (simp add: readFrame_def frame_of_def Let_def buf_alloc_def buf_slice_from_nat2
      split: prod.splits sum.splits)

lemma readFragmentedBuffer_unfold:
  "readFragmentedBuffer this chunk =
     (case fragmentedFrame this of
        None \<Rightarrow> (this, chunk)
      | Some ff \<Rightarrow>
          if int (IFragmentedFrame.payloadLen ff) - int (length (rawPayload ff)) > int (length chunk)
          then (this\<lparr>fragmentedFrame := Some (ff\<lparr>rawPayload := rawPayload ff @ chunk\<rparr>)\<rparr>, [])
          else (\<lparr>parsedFrames = parsedFrames this @
                   [frame_of (ff\<lparr>rawPayload :=
                       buf_concat [rawPayload ff,
                                   buf_slice chunk 0 (int (IFragmentedFrame.payloadLen ff)
                                                      - int (length (rawPayload ff)))]
                         (IFragmentedFrame.payloadLen ff)\<rparr>)],
                 fragmentedFrame = None\<rparr>,
                buf_slice_from chunk (int (IFragmentedFrame.payloadLen ff)
                                      - int (length (rawPayload ff)))))"
  by (simp add: readFragmentedBuffer_def frame_of_def Let_def buf_alloc_def buf_concat_exact
      split: option.splits)

lemma frame_of_lengths:
  "length (rawPayload h) = IFragmentedFrame.payloadLen h \<Longrightarrow>
   length (payload (frame_of h)) = IFrame.payloadLen (frame_of h)
   \<and> frameLen (frame_of h) = byteOffset h + length (payload (frame_of h))"
  by (simp add: frame_of_def length_unmask)

lemma readHeader_rawPayload_length:
  "readHeader chunk = Inr h \<Longrightarrow> length (rawPayload h) \<le> IFragmentedFrame.payloadLen h"
  by (drule readHeader_rawPayload) simp

text \<open>What one call of \<open>readFragmentedBuffer\<close> appends to the queue.\<close>

lemma readFragmentedBuffer_appends:
  assumes "readFragmentedBuffer this chunk = (this1, rest)"
  shows "parsedFrames this1 = parsedFrames this
       \<or> (\<exists>ff f. fragmentedFrame this = Some ff \<and> parsedFrames this1 = parsedFrames this @ [f]
              \<and> length (payload f) = IFrame.payloadLen f
              \<and> frameLen f = byteOffset ff + length (payload f))"
proof (cases "fragmentedFrame this")
  case None
  then show ?thesis using assms by (simp add: readFragmentedBuffer_unfold)
next
  case (Some ff)
  show ?thesis
  proof (cases "int (IFragmentedFrame.payloadLen ff) - int (length (rawPayload ff))
                > int (length chunk)")
    case True
    then show ?thesis using assms Some by (auto simp: readFragmentedBuffer_unfold)
  next
    case False
    let ?h = "ff\<lparr>rawPayload :=
                buf_concat [rawPayload ff,
                            buf_slice chunk 0 (int (IFragmentedFrame.payloadLen ff)
                                               - int (length (rawPayload ff)))]
                  (IFragmentedFrame.payloadLen ff)\<rparr>"
    have l: "length (rawPayload ?h) = IFragmentedFrame.payloadLen ?h"
      by (simp add: length_buf_concat)
    have q: "parsedFrames this1 = parsedFrames this @ [frame_of ?h]"
      using assms Some False by (auto simp: readFragmentedBuffer_unfold)
    have "byteOffset ?h = byteOffset ff" by simp
    with frame_of_lengths [OF l] q Some show ?thesis by metis
  qed
qed

text \<open>What the header-parsing part of one \<open>readFrame\<close> call appends to the queue.\<close>

lemma readFrame_appends:
  assumes "readFragmentedBuffer this chunk = (this1, rest)"
    and "readFrame this chunk = (this', out)"
  shows "parsedFrames this' = parsedFrames this1
       \<or> (\<exists>h f. readHeader rest = Inr h \<and> parsedFrames this' = parsedFrames this1 @ [f]
              \<and> length (payload f) = IFrame.payloadLen f
              \<and> frameLen f = byteOffset h + length (payload f))"
proof (cases "rest = []")
  case True
  then show ?thesis using assms by (simp add: readFrame_unfold)
next
  case False
  show ?thesis
  proof (cases "readHeader rest")
    case (Inl e)
    then show ?thesis using assms False by (simp add: readFrame_unfold)
  next
    case (Inr h)
    show ?thesis
    proof (cases "length (rawPayload h) < IFragmentedFrame.payloadLen h")
      case True
      then show ?thesis using assms False Inr by (auto simp: readFrame_unfold)
    next
      case F: False
      with readHeader_rawPayload_length [OF Inr]
      have l: "length (rawPayload h) = IFragmentedFrame.payloadLen h" by simp
      have q: "parsedFrames this' = parsedFrames this1 @ [frame_of h]"
        using assms False Inr F by (auto simp: readFrame_unfold)
      with frame_of_lengths [OF l] Inr show ?thesis by metis
    qed
  qed
qed

lemma parser_inv_newParser: "parser_inv newParser"
  by (simp add: parser_inv_def newParser_def)

lemma parser_inv_clearFrames: "parser_inv (clearFrames this) = parser_inv this"
  by (simp add: parser_inv_def clearFrames_def)

lemma parser_inv_readFragmentedBuffer:
  "parser_inv this \<Longrightarrow> parser_inv (fst (readFragmentedBuffer this chunk))"
  by (auto simp: parser_inv_def readFragmentedBuffer_unfold split: option.splits)

lemma parser_inv_readFrame:
  "parser_inv this \<Longrightarrow> parser_inv (fst (readFrame this chunk))"
  using parser_inv_readFragmentedBuffer [of this chunk]
  by (auto simp: readFrame_unfold parser_inv_def split: prod.splits sum.splits)

text \<open>
  Claim C9: every frame appended to the decoded-frame queue, by \<open>readFragmentedBuffer\<close>
  completing a pending partial frame or by \<open>readFrame\<close> directly, has
  \<open>payload.length = payloadLen\<close>, and its \<open>frameLen\<close> is the header byte offset plus
  \<open>payload.length\<close>. One call of \<open>readFrame\<close> appends at most one frame at each of the
  two sites: the first with the byte offset stored in the pending frame, the second with
  the byte offset of the header parsed from the rest of the chunk.
\<close>

theorem appended_frames_lengths:
  assumes "readFragmentedBuffer this chunk = (this1, rest)"
    and "readFrame this chunk = (this', out)"
  shows "(parsedFrames this1 = parsedFrames this
          \<or> (\<exists>ff f. fragmentedFrame this = Some ff
                 \<and> parsedFrames this1 = parsedFrames this @ [f]
                 \<and> length (payload f) = IFrame.payloadLen f
                 \<and> frameLen f = byteOffset ff + length (payload f)))
       \<and> (parsedFrames this' = parsedFrames this1
          \<or> (\<exists>h f. readHeader rest = Inr h
                 \<and> parsedFrames this' = parsedFrames this1 @ [f]
                 \<and> length (payload f) = IFrame.payloadLen f
                 \<and> frameLen f = byteOffset h + length (payload f)))"
  using readFragmentedBuffer_appends [OF assms(1)] readFrame_appends [OF assms] by blast

theorem appended_frames_lengths_witness:
  "\<exists>h f. readHeader [0x81, 0x81, 1, 2, 3, 4, 0x41] = Inr h
      \<and> parsedFrames (fst (readFrame newParser [0x81, 0x81, 1, 2, 3, 4, 0x41])) = [f]
      \<and> length (payload f) = IFrame.payloadLen f
      \<and> frameLen f = byteOffset h + length (payload f)"
proof -
  let ?c = "[0x81, 0x81, 1, 2, 3, 4, 0x41] :: buffer"
  let ?f = "\<lparr>IFrame.fin = True, rsv1 = 0, rsv2 = 0, rsv3 = 0, opcode = 1,
         mask_flag = True, payloadLen = 1, payload = [0x40], frameLen = 7\<rparr>"
  have a: "readFragmentedBuffer newParser ?c = (newParser, ?c)"
    by (simp add: readFragmentedBuffer_idle newParser_def)
  have b: "readFrame newParser ?c = (\<lparr>parsedFrames = [?f], fragmentedFrame = None\<rparr>, Inr [])"
    by code_simp
  have n: "parsedFrames newParser = []" by (simp add: newParser_def)
  have "\<exists>h. readHeader ?c = Inr h \<and> byteOffset h = 6"
    using appended_frames_lengths [OF a b] by (simp add: n)
  then obtain h where h: "readHeader ?c = Inr h" "byteOffset h = 6" by blast
  have "parsedFrames (fst (readFrame newParser ?c)) = [?f]
        \<and> length (payload ?f) = IFrame.payloadLen ?f
        \<and> frameLen ?f = byteOffset h + length (payload ?f)"
    using h by (simp add: b)
  with h(1) show ?thesis by blast
qed

subsection \<open>Sequences of calls\<close>

lemma readFrame_queue_prefix:
  "\<exists>new. parsedFrames (fst (readFrame this chunk)) = parsedFrames this @ new"
proof -
  obtain this1 rest where a: "readFragmentedBuffer this chunk = (this1, rest)"
    by (cases "readFragmentedBuffer this chunk")
  obtain this' out where b: "readFrame this chunk = (this', out)"
    by (cases "readFrame this chunk")
  from readFragmentedBuffer_appends [OF a] readFrame_appends [OF a b]
  show ?thesis unfolding b by auto
qed

lemma feed_queue_prefix:
  "\<exists>new. parsedFrames (fst (feed this chunks)) = parsedFrames this @ new"
proof (induction chunks arbitrary: this)
  case Nil
  show ?case by simp
next
  case (Cons c cs)
  obtain this' out where r: "readFrame this c = (this', out)" by (cases "readFrame this c")
  from readFrame_queue_prefix [of this c] r
  obtain n1 where n1: "parsedFrames this' = parsedFrames this @ n1" by auto
  from Cons.IH [of this'] obtain n2 where
    n2: "parsedFrames (fst (feed this' cs)) = parsedFrames this' @ n2" by blast
  show ?case using r n1 n2 by (cases out) auto
qed

text \<open>
  A pending partial frame is completed and emitted once chunks with enough bytes have
  been fed, however they are cut.
\<close>

lemma feed_completes_pending:
  assumes "fragmentedFrame this = Some ff"
    and "length (rawPayload ff) < IFragmentedFrame.payloadLen ff"
    and "IFragmentedFrame.payloadLen ff - length (rawPayload ff) \<le> length (concat chunks)"
  shows "\<exists>later. parsedFrames (fst (feed this chunks)) =
           parsedFrames this
           @ frame_of (ff\<lparr>rawPayload := rawPayload ff
                 @ take (IFragmentedFrame.payloadLen ff - length (rawPayload ff)) (concat chunks)\<rparr>)
           # later"
  using assms
proof (induction chunks arbitrary: this ff)
  case Nil
  then show ?case by simp
next
  case (Cons c cs)
  let ?p = "IFragmentedFrame.payloadLen ff" and ?l = "length (rawPayload ff)"
  show ?case
  proof (cases "length c < ?p - ?l")
    case True
    let ?ff = "ff\<lparr>rawPayload := rawPayload ff @ c\<rparr>"
    let ?st = "this\<lparr>fragmentedFrame := Some ?ff\<rparr>"
    have s: "?l + length c < ?p" using True by simp
    have rb: "readFragmentedBuffer this c = (?st, [])"
      using Cons.prems(1) s by (rule readFragmentedBuffer_buffering)
    have rf: "readFrame this c = (?st, Inr [])"
      by (simp add: readFrame_unfold rb)
    have ne: "cs \<noteq> []" using Cons.prems(3) True by auto
    have f: "feed this (c # cs) = feed ?st cs" using rf ne by simp
    have 1: "fragmentedFrame ?st = Some ?ff" by simp
    have 2: "length (rawPayload ?ff) < IFragmentedFrame.payloadLen ?ff" using s by simp
    have 3: "IFragmentedFrame.payloadLen ?ff - length (rawPayload ?ff) \<le> length (concat cs)"
      using Cons.prems(3) True by simp
    from Cons.IH [OF 1 2 3] obtain later where
      l: "parsedFrames (fst (feed ?st cs)) =
           parsedFrames ?st
           @ frame_of (?ff\<lparr>rawPayload := rawPayload ?ff
                 @ take (IFragmentedFrame.payloadLen ?ff - length (rawPayload ?ff)) (concat cs)\<rparr>)
           # later" by blast
    have t: "take (?p - ?l) (concat (c # cs)) = c @ take (?p - (?l + length c)) (concat cs)"
      using True by simp
    show ?thesis unfolding f l t by simp
  next
    case False
    then have en: "?p - ?l \<le> length c" by simp
    have le: "?l \<le> ?p" using Cons.prems(2) by simp
    let ?f = "frame_of (ff\<lparr>rawPayload := rawPayload ff @ take (?p - ?l) c\<rparr>)"
    have rb: "fst (readFragmentedBuffer this c)
              = \<lparr>parsedFrames = parsedFrames this @ [?f], fragmentedFrame = None\<rparr>"
      unfolding readFragmentedBuffer_completing [OF Cons.prems(1) le en]
      by (simp add: frame_of_def length_unmask en le)
    obtain this1 rest where a: "readFragmentedBuffer this c = (this1, rest)"
      by (cases "readFragmentedBuffer this c")
    obtain this' out where b: "readFrame this c = (this', out)" by (cases "readFrame this c")
    have q1: "parsedFrames this1 = parsedFrames this @ [?f]" using rb a by simp
    from readFrame_appends [OF a b] obtain n1 where
      n1: "parsedFrames this' = parsedFrames this1 @ n1" by auto
    from feed_queue_prefix [of this' cs] obtain n2 where
      n2: "parsedFrames (fst (feed this' cs)) = parsedFrames this' @ n2" by blast
    have t: "take (?p - ?l) (concat (c # cs)) = take (?p - ?l) c" using en by simp
    have "\<exists>later. parsedFrames (fst (feed this (c # cs))) = parsedFrames this @ ?f # later"
      using b q1 n1 n2 by (cases out) auto
    then show ?thesis unfolding t .
  qed
qed

text \<open>
  Claim C10: \<open>clearFrames\<close> empties the decoded-frame queue and leaves the pending
  partial frame unchanged; a frame whose payload was only partially buffered before
  \<open>clearFrames\<close> is still completed and emitted once the remaining bytes have arrived in
  later calls, in whatever chunks: it is then the first frame of the queue, built from
  the stored header fields and the buffered bytes followed by the missing ones.
\<close>

theorem clearFrames_keeps_pending:
  "parsedFrames (clearFrames this) = []
   \<and> fragmentedFrame (clearFrames this) = fragmentedFrame this
   \<and> (fragmentedFrame this = Some ff
        \<and> length (rawPayload ff) < IFragmentedFrame.payloadLen ff
        \<and> IFragmentedFrame.payloadLen ff - length (rawPayload ff) \<le> length (concat chunks)
      \<longrightarrow> (\<exists>later. parsedFrames (fst (feed (clearFrames this) chunks)) =
             frame_of (ff\<lparr>rawPayload := rawPayload ff
                 @ take (IFragmentedFrame.payloadLen ff - length (rawPayload ff))
                     (concat chunks)\<rparr>)
             # later))"
proof (intro conjI impI)
  show "parsedFrames (clearFrames this) = []" by (simp add: clearFrames_def)
  show "fragmentedFrame (clearFrames this) = fragmentedFrame this" by (simp add: clearFrames_def)
next
  assume a: "fragmentedFrame this = Some ff
        \<and> length (rawPayload ff) < IFragmentedFrame.payloadLen ff
        \<and> IFragmentedFrame.payloadLen ff - length (rawPayload ff) \<le> length (concat chunks)"
  then have 1: "fragmentedFrame (clearFrames this) = Some ff" by (simp add: clearFrames_def)
  have 2: "parsedFrames (clearFrames this) = []" by (simp add: clearFrames_def)
  from feed_completes_pending [OF 1] a
  show "\<exists>later. parsedFrames (fst (feed (clearFrames this) chunks)) =
             frame_of (ff\<lparr>rawPayload := rawPayload ff
                 @ take (IFragmentedFrame.payloadLen ff - length (rawPayload ff))
                     (concat chunks)\<rparr>)
             # later"
    unfolding 2 by simp
qed

theorem clearFrames_keeps_pending_witness:
  "\<exists>later. parsedFrames (fst (feed (clearFrames
       \<lparr>parsedFrames = [\<lparr>IFrame.fin = True, rsv1 = 0, rsv2 = 0, rsv3 = 0, opcode = 1,
           mask_flag = False, payloadLen = 1, payload = [0x41], frameLen = 3\<rparr>],
        fragmentedFrame = Some \<lparr>IFragmentedFrame.fin = True, rsv1 = 0, rsv2 = 0, rsv3 = 0,
           mask_flag = False, opcode = 2, payloadLen = 3, rawPayload = [1],
           maskingKey = [0, 0, 0, 0], byteOffset = 2\<rparr>\<rparr>) [[2], [3]]))
     = \<lparr>IFrame.fin = True, rsv1 = 0, rsv2 = 0, rsv3 = 0, opcode = 2,
           mask_flag = False, payloadLen = 3, payload = [1, 2, 3], frameLen = 5\<rparr> # later"
proof -
  let ?ff = "\<lparr>IFragmentedFrame.fin = True, rsv1 = 0, rsv2 = 0, rsv3 = 0,
           mask_flag = False, opcode = 2, payloadLen = 3, rawPayload = [1],
           maskingKey = [0, 0, 0, 0], byteOffset = 2\<rparr>"
  let ?st = "\<lparr>parsedFrames = [\<lparr>IFrame.fin = True, rsv1 = 0, rsv2 = 0, rsv3 = 0, opcode = 1,
           mask_flag = False, payloadLen = 1, payload = [0x41], frameLen = 3\<rparr>],
        fragmentedFrame = Some ?ff\<rparr>"
  have h: "fragmentedFrame ?st = Some ?ff
        \<and> length (rawPayload ?ff) < IFragmentedFrame.payloadLen ?ff
        \<and> IFragmentedFrame.payloadLen ?ff - length (rawPayload ?ff)
            \<le> length (concat [[2], [3 :: byte]])"
    by simp
  from clearFrames_keeps_pending [of ?st ?ff "[[2], [3]]"] h
  have "\<exists>later. parsedFrames (fst (feed (clearFrames ?st) [[2], [3]])) =
             frame_of (?ff\<lparr>rawPayload := rawPayload ?ff
                 @ take (IFragmentedFrame.payloadLen ?ff - length (rawPayload ?ff))
                     (concat [[2], [3]])\<rparr>)
             # later"
    by blast
  then show ?thesis by (simp add: frame_of_def)
qed

subsection \<open>A frame split into two chunks\<close>

lemma readFrame_newParser_unfold:
  "readFrame newParser chunk =
     (if chunk = [] then (newParser, Inr [])
      else (case readHeader chunk of
              Inl e \<Rightarrow> (newParser, Inl e)
            | Inr h \<Rightarrow>
                if length (rawPayload h) < IFragmentedFrame.payloadLen h
                then (\<lparr>parsedFrames = [], fragmentedFrame = Some h\<rparr>, Inr [])
                else (\<lparr>parsedFrames = [frame_of h], fragmentedFrame = None\<rparr>,
                      Inr (drop (byteOffset h + IFragmentedFrame.payloadLen h) chunk))))"
  by (simp add: readFrame_unfold readFragmentedBuffer_unfold newParser_def split: sum.splits)

lemma complete_frameD:
  assumes "complete_frame bs f"
  shows "\<exists>h. bs \<noteq> [] \<and> readHeader bs = Inr h
           \<and> length (rawPayload h) = IFragmentedFrame.payloadLen h
           \<and> f = frame_of h
           \<and> drop (byteOffset h + IFragmentedFrame.payloadLen h) bs = []"
proof -
  have r: "readFrame newParser bs = (\<lparr>parsedFrames = [f], fragmentedFrame = None\<rparr>, Inr [])"
    using assms by (simp add: complete_frame_def)
  have ne: "bs \<noteq> []"
  proof
    assume "bs = []"
    then have "readFrame newParser bs = (newParser, Inr [])"
      by (simp add: readFrame_newParser_unfold)
    with r show False by (simp add: newParser_def)
  qed
  obtain h where h: "readHeader bs = Inr h"
    using r ne by (cases "readHeader bs") (auto simp: readFrame_newParser_unfold)
  have nl: "\<not> length (rawPayload h) < IFragmentedFrame.payloadLen h"
    using r ne h by (auto simp: readFrame_newParser_unfold split: if_splits)
  with readHeader_rawPayload_length [OF h]
  have l: "length (rawPayload h) = IFragmentedFrame.payloadLen h" by simp
  have "f = frame_of h" and "drop (byteOffset h + IFragmentedFrame.payloadLen h) bs = []"
    using r ne h nl by (auto simp: readFrame_newParser_unfold)
  with ne h l show ?thesis by blast
qed

lemma frame_of_header_length:
  "length (rawPayload h) = IFragmentedFrame.payloadLen h \<Longrightarrow>
   frameLen (frame_of h) - IFrame.payloadLen (frame_of h) = byteOffset h"
  by (simp add: frame_of_def length_unmask)

text \<open>
  Claim C2, as stated: for every byte sequence that encodes one complete frame and every
  split position from 0 to its length, feeding the two chunks one after the other to a
  new decoder yields the same single frame as feeding the whole sequence. It fails for a
  split inside the header: the decoder has no state for a partial header, and on the
  one-byte chunk \<open>0x81\<close> reading the second byte raises a \<open>RangeError\<close>.
\<close>

theorem split_counterexample:
  "complete_frame [0x81, 0x01, 0x41]
     \<lparr>IFrame.fin = True, rsv1 = 0, rsv2 = 0, rsv3 = 0, opcode = 1,
      mask_flag = False, payloadLen = 1, payload = [0x41], frameLen = 3\<rparr>
   \<and> feed newParser [take 1 [0x81, 0x01, 0x41], drop 1 [0x81, 0x01, 0x41]]
       = (newParser, Inl RangeError)
   \<and> feed newParser [take 1 [0x81, 0x01, 0x41], drop 1 [0x81, 0x01, 0x41]]
       \<noteq> readFrame newParser [0x81, 0x01, 0x41]"
proof -
  have a: "readFrame newParser [0x81, 0x01, 0x41]
     = (\<lparr>parsedFrames = [\<lparr>IFrame.fin = True, rsv1 = 0, rsv2 = 0, rsv3 = 0, opcode = 1,
          mask_flag = False, payloadLen = 1, payload = [0x41], frameLen = 3\<rparr>],
         fragmentedFrame = None\<rparr>, Inr [])"
    by code_simp
  have b: "feed newParser [take 1 [0x81, 0x01, 0x41], drop 1 [0x81, 0x01, 0x41]]
       = (newParser, Inl RangeError)"
    by code_simp
  show ?thesis unfolding complete_frame_def b a by simp
qed

text \<open>
  Claim C2, amended: for every byte sequence that encodes one complete frame and every
  split position that is 0 or at least the length of the frame's header
  (\<open>frameLen - payloadLen\<close>) and at most the length of the sequence, feeding the two
  chunks one after the other to a new decoder, one \<open>readFrame\<close> call each, ends in the
  same parser state, with the same single frame in the queue and nothing pending, and
  the same empty remainder as feeding the whole sequence in one call.
\<close>

theorem split_invariance:
  assumes cf: "complete_frame bs f" and kl: "k \<le> length bs"
    and k: "k = 0 \<or> frameLen f - IFrame.payloadLen f \<le> k"
  shows "feed newParser [take k bs, drop k bs]
           = (\<lparr>parsedFrames = [f], fragmentedFrame = None\<rparr>, Inr [])
       \<and> feed newParser [take k bs, drop k bs] = readFrame newParser bs"
proof -
  have r: "readFrame newParser bs = (\<lparr>parsedFrames = [f], fragmentedFrame = None\<rparr>, Inr [])"
    using cf by (simp add: complete_frame_def)
  from complete_frameD [OF cf] obtain h where
    ne: "bs \<noteq> []" and h: "readHeader bs = Inr h"
    and l: "length (rawPayload h) = IFragmentedFrame.payloadLen h"
    and f: "f = frame_of h"
    and d: "drop (byteOffset h + IFragmentedFrame.payloadLen h) bs = []"
    by blast
  let ?p = "IFragmentedFrame.payloadLen h" and ?off = "byteOffset h"
  have raw: "rawPayload h = take ?p (drop ?off bs)" using h by (rule readHeader_rawPayload)
  have "feed newParser [take k bs, drop k bs]
           = (\<lparr>parsedFrames = [f], fragmentedFrame = None\<rparr>, Inr [])"
  proof (cases "k = 0")
    case True
    have "readFrame newParser [] = (newParser, Inr [])"
      by (simp add: readFrame_newParser_unfold)
    then show ?thesis using True r by simp
  next
    case k0: False
    then have offk: "?off \<le> k" using k f frame_of_header_length [OF l] by simp
    show ?thesis
    proof (cases "k = length bs")
      case True
      have "readFrame \<lparr>parsedFrames = [f], fragmentedFrame = None\<rparr> []
            = (\<lparr>parsedFrames = [f], fragmentedFrame = None\<rparr>, Inr [])"
        by (simp add: readFrame_unfold readFragmentedBuffer_unfold)
      then show ?thesis using True r by simp
    next
      case False
      then have klt: "k < length bs" using kl by simp
      have len: "length bs = ?off + ?p"
      proof -
        have "length bs \<le> ?off + ?p" using d by simp
        moreover have "?p \<le> length bs - ?off" using l raw by simp
        moreover have "?off < length bs" using offk klt by simp
        ultimately show ?thesis by simp
      qed
      let ?raw1 = "take ?p (drop ?off (take k bs))"
      let ?h1 = "h\<lparr>rawPayload := ?raw1\<rparr>"
      have h1: "readHeader (take k bs) = Inr ?h1" using h offk by (rule readHeader_take)
      have raw1: "?raw1 = take (k - ?off) (drop ?off bs)"
        using klt len offk by (simp add: drop_take min_def)
      have l1: "length ?raw1 = k - ?off" using klt offk len by (simp add: raw1)
      have short: "length (rawPayload ?h1) < IFragmentedFrame.payloadLen ?h1"
        using l1 klt len offk by simp
      have ne1: "take k bs \<noteq> []" using k0 ne by simp
      let ?st1 = "\<lparr>parsedFrames = [], fragmentedFrame = Some ?h1\<rparr>"
      have c1: "readFrame newParser (take k bs) = (?st1, Inr [])"
        using ne1 short by (simp add: readFrame_newParser_unfold h1)
      have pl: "IFragmentedFrame.payloadLen ?h1 = ?p" by simp
      have rp: "rawPayload ?h1 = ?raw1" by simp
      have A: "take (k - ?off) (drop ?off bs) @ take (?p - (k - ?off)) (drop k bs) = rawPayload h"
      proof -
        have "take (?p - (k - ?off)) (drop k bs) = drop (k - ?off) (drop ?off bs)"
          using len offk klt by simp
        then have "take (k - ?off) (drop ?off bs) @ take (?p - (k - ?off)) (drop k bs)
                   = drop ?off bs"
          by (simp only: append_take_drop_id)
        also have "drop ?off bs = rawPayload h" using raw len by simp
        finally show ?thesis .
      qed
      have join: "rawPayload ?h1 @ take (IFragmentedFrame.payloadLen ?h1 - length (rawPayload ?h1))
                                      (drop k bs) = rawPayload h"
        unfolding rp pl l1 unfolding raw1 by (rule A)
      have rb: "readFragmentedBuffer ?st1 (drop k bs)
                  = (\<lparr>parsedFrames = [frame_of h], fragmentedFrame = None\<rparr>, [])"
      proof -
        have a: "fragmentedFrame ?st1 = Some ?h1" by simp
        have b: "length (rawPayload ?h1) \<le> IFragmentedFrame.payloadLen ?h1"
          using short by simp
        have c: "IFragmentedFrame.payloadLen ?h1 - length (rawPayload ?h1) \<le> length (drop k bs)"
          using l1 len offk klt by simp
        have e: "drop (IFragmentedFrame.payloadLen ?h1 - length (rawPayload ?h1)) (drop k bs) = []"
          using l1 len offk klt by simp
        have g: "?h1\<lparr>rawPayload := rawPayload h\<rparr> = h" by simp
        show ?thesis
          unfolding readFragmentedBuffer_completing [OF a b c] e
          using join l g by (simp add: frame_of_def length_unmask)
      qed
      have c2: "readFrame ?st1 (drop k bs)
                  = (\<lparr>parsedFrames = [frame_of h], fragmentedFrame = None\<rparr>, Inr [])"
        by (simp add: readFrame_unfold rb)
      show ?thesis using c1 c2 f by simp
    qed
  qed
  then show ?thesis using r by simp
qed

theorem split_invariance_witness:
  "complete_frame [0x81, 0x82, 1, 2, 3, 4, 0x41, 0x42]
     \<lparr>IFrame.fin = True, rsv1 = 0, rsv2 = 0, rsv3 = 0, opcode = 1,
      mask_flag = True, payloadLen = 2, payload = [0x40, 0x40], frameLen = 8\<rparr>
   \<and> (7::nat) \<le> length [0x81, 0x82, 1, 2, 3, 4, 0x41, 0x42 :: byte]
   \<and> feed newParser [take 7 [0x81, 0x82, 1, 2, 3, 4, 0x41, 0x42],
                      drop 7 [0x81, 0x82, 1, 2, 3, 4, 0x41, 0x42]]
       = readFrame newParser [0x81, 0x82, 1, 2, 3, 4, 0x41, 0x42]"
proof -
  let ?bs = "[0x81, 0x82, 1, 2, 3, 4, 0x41, 0x42] :: buffer"
  let ?f = "\<lparr>IFrame.fin = True, rsv1 = 0, rsv2 = 0, rsv3 = 0, opcode = 1,
      mask_flag = True, payloadLen = 2, payload = [0x40, 0x40], frameLen = 8\<rparr>"
  have r: "readFrame newParser ?bs = (\<lparr>parsedFrames = [?f], fragmentedFrame = None\<rparr>, Inr [])"
    by code_simp
  then have a: "complete_frame ?bs ?f" by (simp add: complete_frame_def)
  have b: "7 \<le> length ?bs" by simp
  have c: "(7::nat) = 0 \<or> frameLen ?f - IFrame.payloadLen ?f \<le> 7" by simp
  have d: "feed newParser [take 7 ?bs, drop 7 ?bs] = readFrame newParser ?bs"
    using split_invariance [OF a b c] by (rule conjunct2)
  show ?thesis using a b d by blast
qed

end
